theory Spec2Isabelle
  imports Complex_Main "HOL-Library.Log_Nat"
begin

unbundle bit_operations_syntax

section \<open>Errors\<close>

text \<open>
  The exceptions the program can meet. \<open>AddressValueError\<close> and \<open>NetmaskValueError\<close>
  are the two subclasses of \<open>ValueError\<close> of Python's \<open>ipaddress\<close> module;
  \<open>ValueError\<close> carries its message.
\<close>

datatype error =
    ValueError string
  | AddressValueError int
  | NetmaskValueError int
  | TypeError
  | IndexError

section \<open>The \<open>math\<close> functions of \<open>handle_split_network\<close>\<close>

text \<open>
  \<open>math.ceil(math.log2(x))\<close> on a Python integer. \<open>math.log2\<close> raises
  \<open>ValueError('math domain error')\<close> when \<open>x \<le> 0\<close>. Otherwise Python computes the
  logarithm in double precision. For \<open>1 \<le> x \<le> 2 ^ 32\<close>, the sizes that can pass the
  capacity check of an IPv4 network, the double has the same ceiling as the real
  logarithm (\<open>ceillog2 n = nat \<lceil>log 2 n\<rceil>\<close>). Above \<open>2 ^ 32\<close> the rounding of the double
  decides (for \<open>2 ^ 49 + 1\<close> it gives 49, not 50): there the result is the parameter
  \<open>dbl\<close>, which stands for the double-precision computation and is left open.
\<close>

definition ceil_log2 :: "(int \<Rightarrow> int) \<Rightarrow> int \<Rightarrow> error + int" where
  "ceil_log2 dbl x =
     (if x \<le> 0 then Inl (ValueError ''math domain error'')
      else if x \<le> 2 ^ 32 then Inr (int (ceillog2 (nat x)))
      else Inr (dbl x))"

text \<open>The ceiling of the real logarithm: one value the parameter \<open>dbl\<close> can take.\<close>

definition real_ceil_log2 :: "int \<Rightarrow> int" where
  "real_ceil_log2 x = int (ceillog2 (nat x))"

text \<open>
  \<open>int(math.log2(x))\<close>: the logarithm truncated towards zero, which is its floor for
  \<open>x \<ge> 1\<close> (\<open>bitlen x - 1 = \<lfloor>log 2 x\<rfloor>\<close>). The program applies it to block sizes
  only, which are powers of two; there the double-precision logarithm is the exponent
  itself.
\<close>

definition int_log2 :: "int \<Rightarrow> error + int" where
  "int_log2 x =
     (if x \<le> 0 then Inl (ValueError ''math domain error'')
      else Inr (bitlen x - 1))"

section \<open>Addresses and networks of the \<open>ipaddress\<close> module\<close>

datatype ip_version = IPv4 | IPv6

fun max_prefixlen :: "ip_version \<Rightarrow> int" where
  "max_prefixlen IPv4 = 32"
| "max_prefixlen IPv6 = 128"

definition ALL_ONES :: "ip_version \<Rightarrow> int" where
  "ALL_ONES v = 2 ^ nat (max_prefixlen v) - 1"

text \<open>An address object: its class (\<open>IPv4Address\<close> or \<open>IPv6Address\<close>) and its integer.\<close>

record address =
  version :: ip_version
  ip :: int

text \<open>
  A network object: \<open>network_address\<close> and \<open>prefixlen\<close>; netmask, hostmask, broadcast
  address and address count are computed from them, as the properties of the class do.
\<close>

record network =
  network_address :: address
  prefixlen :: int

text \<open>\<open>IPv4Address(n)\<close> / \<open>IPv6Address(n)\<close> on an integer: \<open>_check_int_address\<close>.\<close>

definition new_address :: "ip_version \<Rightarrow> int \<Rightarrow> error + address" where
  "new_address v n =
     (if n < 0 then Inl (AddressValueError n)
      else if n > ALL_ONES v then Inl (AddressValueError n)
      else Inr \<lparr>version = v, ip = n\<rparr>)"

text \<open>\<open>address + n\<close> and \<open>address - n\<close> build a new address object of the same class.\<close>

definition address_add :: "address \<Rightarrow> int \<Rightarrow> error + address" where
  "address_add a n = new_address (version a) (ip a + n)"

definition address_sub :: "address \<Rightarrow> int \<Rightarrow> error + address" where
  "address_sub a n = new_address (version a) (ip a - n)"

text \<open>\<open>_ip_int_from_prefix\<close>: \<open>_ALL_ONES ^ (_ALL_ONES >> prefixlen)\<close>.\<close>

definition ip_int_from_prefix :: "ip_version \<Rightarrow> int \<Rightarrow> int" where
  "ip_int_from_prefix v p = ALL_ONES v XOR drop_bit (nat p) (ALL_ONES v)"

definition netmask :: "network \<Rightarrow> int" where
  "netmask n = ip_int_from_prefix (version (network_address n)) (prefixlen n)"

definition hostmask :: "network \<Rightarrow> int" where
  "hostmask n = netmask n XOR ALL_ONES (version (network_address n))"

definition broadcast_address :: "network \<Rightarrow> address" where
  "broadcast_address n =
     \<lparr>version = version (network_address n),
      ip = ip (network_address n) OR hostmask n\<rparr>"

definition num_addresses :: "network \<Rightarrow> int" where
  "num_addresses n = ip (broadcast_address n) - ip (network_address n) + 1"

text \<open>
  The constructor \<open>IPv4Network((addr, prefix), strict)\<close> (and its IPv6 twin) on an
  address object and an integer prefix: \<open>_make_netmask\<close> rejects a prefix outside
  \<open>0..max_prefixlen\<close>; host bits are an error when \<open>strict\<close>, and are cleared otherwise.
\<close>

definition new_network :: "bool \<Rightarrow> address \<Rightarrow> int \<Rightarrow> error + network" where
  "new_network strict a p =
     (if \<not> (0 \<le> p \<and> p \<le> max_prefixlen (version a)) then Inl (NetmaskValueError p)
      else
        let mask = ip_int_from_prefix (version a) p; packed = ip a
        in if packed AND mask \<noteq> packed then
             (if strict then Inl (ValueError ''has host bits set'')
              else Inr \<lparr>network_address = a\<lparr>ip := packed AND mask\<rparr>, prefixlen = p\<rparr>)
           else Inr \<lparr>network_address = a, prefixlen = p\<rparr>)"

text \<open>
  \<open>ipaddress.ip_network((address, prefix))\<close>, strict by default: the class that fits the
  address object is tried; its \<open>NetmaskValueError\<close> is caught and replaced by the
  \<open>ValueError\<close> of \<open>ip_network\<close>, the host-bits \<open>ValueError\<close> passes through.
\<close>

definition ip_network :: "address \<Rightarrow> int \<Rightarrow> error + network" where
  "ip_network a p =
     (case new_network True a p of
        Inl (NetmaskValueError _) \<Rightarrow>
          Inl (ValueError ''does not appear to be an IPv4 or IPv6 network'')
      | r \<Rightarrow> r)"

text \<open>
  The network class called on \<open>(int, prefix)\<close>, as \<open>subnets\<close>, \<open>supernet\<close> and
  \<open>summarize_address_range\<close> do: the address object is built first, then the strict network.
\<close>

definition network_of_int :: "ip_version \<Rightarrow> int \<Rightarrow> int \<Rightarrow> error + network" where
  "network_of_int v n p =
     (case new_address v n of
        Inl e \<Rightarrow> Inl e
      | Inr a \<Rightarrow> new_network True a p)"

section \<open>VLSM: \<open>handle_split_network\<close>\<close>

record needed_block =
  original_size :: int
  block_size :: int
  original_index :: nat

text \<open>The first loop: one entry per requested size, in the caller's order.\<close>

fun needed_blocks :: "(int \<Rightarrow> int) \<Rightarrow> nat \<Rightarrow> int list \<Rightarrow> error + needed_block list" where
  "needed_blocks dbl i [] = Inr []"
| "needed_blocks dbl i (sz # sizes) =
     (let actual_size = sz + 2 in
      case ceil_log2 dbl actual_size of
        Inl e \<Rightarrow> Inl e
      | Inr exponent \<Rightarrow>
          (case needed_blocks dbl (Suc i) sizes of
             Inl e \<Rightarrow> Inl e
           | Inr bs \<Rightarrow>
               Inr (\<lparr>original_size = sz, block_size = 2 ^ nat exponent,
                     original_index = i\<rparr> # bs)))"

text \<open>
  \<open>needed_blocks.sort(key=block_size, reverse=True)\<close>: Python's sort is stable, also
  with \<open>reverse=True\<close>, so equal block sizes keep the caller's order.
\<close>

definition sort_blocks :: "needed_block list \<Rightarrow> needed_block list" where
  "sort_blocks bs = sort_key (\<lambda>b. - block_size b) bs"

text \<open>
  The placement loop, with the cursor \<open>current_address\<close> and the list
  \<open>allocated_subnets\<close> passed along. The prefix is \<open>32 - int(math.log2(block_size))\<close>,
  whatever the class of the network.
\<close>

fun place_blocks ::
  "needed_block list \<Rightarrow> address \<Rightarrow> network option list \<Rightarrow> error + network option list"
where
  "place_blocks [] current_address allocated_subnets = Inr allocated_subnets"
| "place_blocks (block # blocks) current_address allocated_subnets =
     (case int_log2 (block_size block) of
        Inl e \<Rightarrow> Inl e
      | Inr l \<Rightarrow>
          (case ip_network current_address (32 - l) of
             Inl e \<Rightarrow> Inl e
           | Inr subnet \<Rightarrow>
               (case address_add current_address (block_size block) of
                  Inl e \<Rightarrow> Inl e
                | Inr next_address \<Rightarrow>
                    place_blocks blocks next_address
                      (allocated_subnets[original_index block := Some subnet]))))"

text \<open>
  What \<open>handle_split_network\<close> ends with: the capacity message on stderr (requested
  total and the network's address count) followed by \<open>return\<close>, or the list
  \<open>allocated_subnets\<close> that the printing loop then walks.
\<close>

datatype split_outcome =
    CapacityExceeded int int
  | Allocated "network option list"

definition handle_split_network ::
  "(int \<Rightarrow> int) \<Rightarrow> network \<Rightarrow> int list \<Rightarrow> error + split_outcome"
where
  "handle_split_network dbl net sizes =
     (case needed_blocks dbl 0 sizes of
        Inl e \<Rightarrow> Inl e
      | Inr unsorted \<Rightarrow>
          let blocks = sort_blocks unsorted;
              total_needed = sum_list (map block_size blocks)
          in if total_needed > num_addresses net then
               Inr (CapacityExceeded total_needed (num_addresses net))
             else
               (case place_blocks blocks (network_address net)
                       (replicate (length sizes) None) of
                  Inl e \<Rightarrow> Inl e
                | Inr allocated_subnets \<Rightarrow> Inr (Allocated allocated_subnets)))"

section \<open>Classes and host ranges: \<open>get_class\<close>, \<open>print_network_info\<close>\<close>

text \<open>\<open>address.packed[0]\<close>: the first byte of the big-endian packing of the address.\<close>

definition first_octet :: "address \<Rightarrow> int" where
  "first_octet a = drop_bit (nat (max_prefixlen (version a) - 8)) (ip a)"

definition get_class :: "address \<Rightarrow> char" where
  "get_class a =
     (if first_octet a AND 128 = 0 then CHR ''A''
      else if first_octet a AND 192 = 128 then CHR ''B''
      else if first_octet a AND 224 = 192 then CHR ''C''
      else if first_octet a AND 240 = 224 then CHR ''D''
      else CHR ''E'')"

text \<open>
  The classful default of \<open>main\<close>, used when the caller gives neither \<open>/MASK\<close> nor a
  second parameter: the text appended to \<open>network_str\<close>.
\<close>

definition classful_suffix :: "address \<Rightarrow> string" where
  "classful_suffix temp_addr =
     (let addr_class = get_class temp_addr in
      if addr_class = CHR ''A'' then ''/8''
      else if addr_class = CHR ''B'' then ''/16''
      else ''/24'')"

text \<open>The host count of \<open>print_network_info\<close>.\<close>

definition hosts_count :: "network \<Rightarrow> int" where
  "hosts_count net =
     (let c = num_addresses net;
          c = (if prefixlen net < 31 then c - 2 else c)
      in if c < 0 then 0 else c)"

text \<open>
  What \<open>print_network_info\<close> reports, line by line; a line that is not printed is
  \<open>None\<close>. The colours, the binary rendering and the well-known-block description are
  presentation and are left out.
\<close>

record network_info =
  Network :: network
  HostMin :: "address option"
  HostMax :: "address option"
  Broadcast :: "address option"
  Hosts_Net :: int
  Class :: char

definition print_network_info :: "network \<Rightarrow> error + network_info" where
  "print_network_info net =
     (if prefixlen net < 31 then
        (case address_add (network_address net) 1 of
           Inl e \<Rightarrow> Inl e
         | Inr host_min \<Rightarrow>
             (case address_sub (broadcast_address net) 1 of
                Inl e \<Rightarrow> Inl e
              | Inr host_max \<Rightarrow>
                  Inr \<lparr>Network = net, HostMin = Some host_min, HostMax = Some host_max,
                       Broadcast = Some (broadcast_address net),
                       Hosts_Net = hosts_count net,
                       Class = get_class (network_address net)\<rparr>))
      else if prefixlen net = 31 then
        Inr \<lparr>Network = net, HostMin = Some (network_address net),
             HostMax = Some (broadcast_address net), Broadcast = None,
             Hosts_Net = hosts_count net, Class = get_class (network_address net)\<rparr>
      else
        Inr \<lparr>Network = net, HostMin = None, HostMax = None, Broadcast = None,
             Hosts_Net = hosts_count net, Class = get_class (network_address net)\<rparr>)"

section \<open>Prefix transitions: \<open>subnets\<close>, \<open>supernet\<close> and the second netmask\<close>

text \<open>Running a fallible function over a list: the first exception ends the loop.\<close>

fun map_result :: "('a \<Rightarrow> error + 'b) \<Rightarrow> 'a list \<Rightarrow> error + 'b list" where
  "map_result f [] = Inr []"
| "map_result f (x # xs) =
     (case f x of
        Inl e \<Rightarrow> Inl e
      | Inr y \<Rightarrow> (case map_result f xs of Inl e \<Rightarrow> Inl e | Inr ys \<Rightarrow> Inr (y # ys)))"

text \<open>\<open>range(start, end, step)\<close> for a positive step.\<close>

definition py_range :: "int \<Rightarrow> int \<Rightarrow> int \<Rightarrow> int list" where
  "py_range start end step =
     map (\<lambda>i. start + int i * step) [0 ..< nat ((end - start + step - 1) div step)]"

text \<open>
  \<open>list(network.subnets(new_prefix=new_prefix))\<close>. A network of full prefix length
  yields itself; a shorter new prefix is refused; \<open>range\<close> refuses a step of zero.
\<close>

definition subnets :: "network \<Rightarrow> int \<Rightarrow> error + network list" where
  "subnets net new_prefix =
     (let v = version (network_address net) in
      if prefixlen net = max_prefixlen v then Inr [net]
      else if new_prefix < prefixlen net then Inl (ValueError ''new prefix must be longer'')
      else
        let prefixlen_diff = new_prefix - prefixlen net;
            new_prefixlen = prefixlen net + prefixlen_diff
        in if new_prefixlen > max_prefixlen v then
             Inl (ValueError ''prefix length diff is invalid for netblock'')
           else
             let start = ip (network_address net);
                 end = ip (broadcast_address net) + 1;
                 step = drop_bit (nat prefixlen_diff) (hostmask net + 1)
             in if step = 0 then Inl (ValueError ''range() arg 3 must not be zero'')
                else map_result (\<lambda>new_addr. network_of_int v new_addr new_prefixlen)
                       (py_range start end step))"

text \<open>
  \<open>network.supernet(new_prefix=new_prefix)\<close>. The netmask is shifted left as an
  unbounded integer, and the strict constructor checks the result.
\<close>

definition supernet :: "network \<Rightarrow> int \<Rightarrow> error + network" where
  "supernet net new_prefix =
     (if prefixlen net = 0 then Inr net
      else if new_prefix > prefixlen net then Inl (ValueError ''new prefix must be shorter'')
      else
        let prefixlen_diff = prefixlen net - new_prefix;
            new_prefixlen = prefixlen net - prefixlen_diff
        in if new_prefixlen < 0 then
             Inl (ValueError ''cannot have a prefixlen_diff'')
           else
             network_of_int (version (network_address net))
               (ip (network_address net) AND push_bit (nat prefixlen_diff) (netmask net))
               new_prefixlen)"

text \<open>
  The block of \<open>main\<close> that handles the second netmask, from the parsed integer on.
  At most 1000 subnets are printed; \<open>truncated\<close> records the message
  \<open>... stopped at 1000 subnets ...\<close>. Every exception of the block is a \<open>ValueError\<close>,
  which \<open>main\<close> reports as \<open>Invalid second netmask\<close>.
\<close>

datatype transition =
    Subnets "network_info list" bool
  | Supernet network_info
  | NoTransition

definition second_netmask :: "network \<Rightarrow> int \<Rightarrow> error + transition" where
  "second_netmask initial_network new_prefix =
     (if \<not> (0 \<le> new_prefix \<and> new_prefix \<le> 32) then
        Inl (ValueError ''Prefix must be between 0 and 32.'')
      else if new_prefix > prefixlen initial_network then
        (case subnets initial_network new_prefix of
           Inl e \<Rightarrow> Inl e
         | Inr subs \<Rightarrow>
             (case map_result print_network_info (take 1000 subs) of
                Inl e \<Rightarrow> Inl e
              | Inr infos \<Rightarrow> Inr (Subnets infos (length subs > 1000))))
      else if new_prefix < prefixlen initial_network then
        (case supernet initial_network new_prefix of
           Inl e \<Rightarrow> Inl e
         | Inr super \<Rightarrow>
             (case print_network_info super of
                Inl e \<Rightarrow> Inl e
              | Inr info \<Rightarrow> Inr (Supernet info)))
      else Inr NoTransition)"

section \<open>Range summarization: \<open>summarize_address_range\<close>\<close>

text \<open>\<open>int.bit_length()\<close>: the number of bits of the absolute value.\<close>

definition bit_length :: "int \<Rightarrow> int" where
  "bit_length x = bitlen \<bar>x\<bar>"

text \<open>\<open>_count_righthand_zero_bits(number, bits)\<close>.\<close>

definition count_righthand_zero_bits :: "int \<Rightarrow> int \<Rightarrow> int" where
  "count_righthand_zero_bits number bits =
     (if number = 0 then bits
      else min bits (bit_length (NOT number AND (number - 1))))"

definition nbits_of :: "ip_version \<Rightarrow> int \<Rightarrow> int \<Rightarrow> int" where
  "nbits_of v first_int last_int =
     min (count_righthand_zero_bits first_int (max_prefixlen v))
         (bit_length (last_int - first_int + 1) - 1)"

text \<open>
  The \<open>while\<close> loop of the generator, collected into a list. It stops when the cursor
  passes \<open>last_int\<close>, or at the \<open>break\<close> after the block that ends at \<open>_ALL_ONES\<close>.
\<close>

function summarize_loop :: "ip_version \<Rightarrow> int \<Rightarrow> int \<Rightarrow> error + network list" where
  "summarize_loop v first_int last_int =
     (if first_int \<le> last_int then
        let nbits = nbits_of v first_int last_int in
        (case network_of_int v first_int (max_prefixlen v - nbits) of
           Inl e \<Rightarrow> Inl e
         | Inr net \<Rightarrow>
             let next_int = first_int + push_bit (nat nbits) 1 in
             if next_int - 1 = ALL_ONES v then Inr [net]
             else
               (case summarize_loop v next_int last_int of
                  Inl e \<Rightarrow> Inl e
                | Inr nets \<Rightarrow> Inr (net # nets)))
      else Inr [])"
  by pat_completeness auto
termination
proof (relation "measure (\<lambda>(v, first_int, last_int). nat (last_int - first_int + 1))")
  show "wf (measure (\<lambda>(v, first_int, last_int). nat (last_int - first_int + 1)))"
    by simp
next
  fix v :: ip_version and first_int last_int nbits :: int and net :: network and next_int :: int
  assume le: "first_int \<le> last_int"
    and next_int: "next_int = first_int + push_bit (nat nbits) 1"
  have "(0::int) < push_bit (nat nbits) 1"
    by (simp add: push_bit_eq_mult)
  with le next_int
  show "((v, next_int, last_int), (v, first_int, last_int))
          \<in> measure (\<lambda>(v, first_int, last_int). nat (last_int - first_int + 1))"
    by simp
qed

declare summarize_loop.simps [simp del]

definition summarize_address_range :: "address \<Rightarrow> address \<Rightarrow> error + network list" where
  "summarize_address_range first_ip last_ip =
     (if version first_ip \<noteq> version last_ip then Inl TypeError
      else if ip first_ip > ip last_ip then
        Inl (ValueError ''last IP address must be greater than first'')
      else summarize_loop (version first_ip) (ip first_ip) (ip last_ip))"

section \<open>The control flow of \<open>main\<close>\<close>

text \<open>
  The parsed command line. Only the options that decide what is computed are kept;
  the colour, HTML and binary switches change the rendering alone.
\<close>

record args =
  params :: "string list"
  version_flag :: bool
  print_class :: bool
  split_opt :: "int list option"

text \<open>
  What \<open>main\<close> takes from outside, as parameters: the three text parsers it calls
  (\<open>ipaddress.ip_address\<close> on a text, \<open>ipaddress.ip_network(text, strict=False)\<close>, and
  \<open>int\<close> on a text), and the double-precision logarithm of \<open>handle_split_network\<close>.
\<close>

record externals =
  ip_address :: "string \<Rightarrow> error + address"
  ip_network_loose :: "string \<Rightarrow> error + network"
  int_of_text :: "string \<Rightarrow> error + int"
  ceil_log2_double :: "int \<Rightarrow> int"

text \<open>How a run of \<open>main\<close> ends, with the exit status of each ending.\<close>

datatype outcome =
    PrintedVersion \<comment> \<open>exit 0\<close>
  | PrintedHelp \<comment> \<open>exit 1\<close>
  | Deaggregated "network list" \<comment> \<open>exit 0\<close>
  | InvalidRange error \<comment> \<open>exit 1\<close>
  | InvalidAddress error \<comment> \<open>exit 1\<close>
  | IPv6Calculation network address \<comment> \<open>\<open>handle_ipv6_calculation\<close>, exit 0\<close>
  | PrintedClass char \<comment> \<open>exit 0\<close>
  | SplitDone split_outcome \<comment> \<open>\<open>handle_split_network\<close>, exit 0\<close>
  | Calculated network_info transition \<comment> \<open>the default mode, run to its end\<close>
  | InvalidSecondNetmask network_info error \<comment> \<open>exit 1\<close>
  | Traceback error \<comment> \<open>an exception no handler catches\<close>

text \<open>\<open>except ValueError\<close> also catches the two subclasses.\<close>

fun is_ValueError :: "error \<Rightarrow> bool" where
  "is_ValueError (ValueError _) = True"
| "is_ValueError (AddressValueError _) = True"
| "is_ValueError (NetmaskValueError _) = True"
| "is_ValueError _ = False"

definition except_range :: "error \<Rightarrow> outcome" where
  "except_range e =
     (if is_ValueError e \<or> e = IndexError then InvalidRange e else Traceback e)"

definition except_address :: "error \<Rightarrow> outcome" where
  "except_address e =
     (if is_ValueError e \<or> e = IndexError then InvalidAddress e else Traceback e)"

definition range_mode :: "externals \<Rightarrow> args \<Rightarrow> outcome" where
  "range_mode P a =
     (case ip_address P (params a ! 0) of
        Inl e \<Rightarrow> except_range e
      | Inr start_ip \<Rightarrow>
          if length (params a) \<le> 2 then except_range IndexError
          else
            (case ip_address P (params a ! 2) of
               Inl e \<Rightarrow> except_range e
             | Inr end_ip \<Rightarrow>
                 (case summarize_address_range start_ip end_ip of
                    Inl e \<Rightarrow> except_range e
                  | Inr nets \<Rightarrow> Deaggregated nets)))"

text \<open>\<open>text.split('/')[0]\<close>.\<close>

definition before_slash :: "string \<Rightarrow> string" where
  "before_slash t = takeWhile (\<lambda>c. c \<noteq> CHR ''/'') t"

text \<open>
  The IPv6 path: the network text (with the default prefix 64), the two parses, then
  \<open>handle_ipv6_calculation\<close> and \<open>sys.exit(0)\<close>.
\<close>

definition ipv6_network_str :: "args \<Rightarrow> string" where
  "ipv6_network_str a =
     (let address_part = params a ! 0 in
      if CHR ''/'' \<in> set address_part then address_part
      else if length (params a) > 1 then address_part @ ''/'' @ params a ! 1
      else address_part @ ''/64'')"

definition ipv6_path :: "externals \<Rightarrow> args \<Rightarrow> outcome" where
  "ipv6_path P a =
     (case ip_network_loose P (ipv6_network_str a) of
        Inl e \<Rightarrow> except_address e
      | Inr initial_network \<Rightarrow>
          (case ip_address P (before_slash (params a ! 0)) of
             Inl e \<Rightarrow> except_address e
           | Inr initial_address \<Rightarrow> IPv6Calculation initial_network initial_address))"

text \<open>
  The IPv4 path up to the end of the \<open>try\<close> block: the network text and the text of the
  second netmask, if there is one.
\<close>

definition ipv4_texts :: "externals \<Rightarrow> args \<Rightarrow> error + string \<times> string option" where
  "ipv4_texts P a =
     (let address_part = params a ! 0 in
      if CHR ''/'' \<in> set address_part then
        Inr (address_part, if length (params a) > 1 then Some (params a ! 1) else None)
      else if length (params a) > 1 then
        Inr (address_part @ ''/'' @ params a ! 1,
             if length (params a) > 2 then Some (params a ! 2) else None)
      else
        (case ip_address P address_part of
           Inl e \<Rightarrow> Inl e
         | Inr temp_addr \<Rightarrow> Inr (address_part @ classful_suffix temp_addr, None)))"

text \<open>What follows the \<open>try\<close> block: class mode, split mode, then the default mode.\<close>

definition after_parsing ::
  "externals \<Rightarrow> args \<Rightarrow> network \<Rightarrow> address \<Rightarrow> string option \<Rightarrow> outcome"
where
  "after_parsing P a initial_network initial_address netmask2_arg =
     (if print_class a then PrintedClass (get_class initial_address)
      else if split_opt a \<noteq> None \<and> split_opt a \<noteq> Some [] then
        (case handle_split_network (ceil_log2_double P) initial_network
                (the (split_opt a)) of
           Inl e \<Rightarrow> Traceback e
         | Inr r \<Rightarrow> SplitDone r)
      else
        (case print_network_info initial_network of
           Inl e \<Rightarrow> Traceback e
         | Inr info \<Rightarrow>
             if netmask2_arg = None \<or> netmask2_arg = Some [] then Calculated info NoTransition
             else
               (case int_of_text P (the netmask2_arg) of
                  Inl e \<Rightarrow>
                    if is_ValueError e then InvalidSecondNetmask info e else Traceback e
                | Inr new_prefix \<Rightarrow>
                    (case second_netmask initial_network new_prefix of
                       Inl e \<Rightarrow>
                         if is_ValueError e then InvalidSecondNetmask info e else Traceback e
                     | Inr t \<Rightarrow> Calculated info t))))"

definition standard_mode :: "externals \<Rightarrow> args \<Rightarrow> outcome" where
  "standard_mode P a =
     (case ip_address P (before_slash (params a ! 0)) of
        Inl e \<Rightarrow> except_address e
      | Inr test_addr \<Rightarrow>
          if version test_addr = IPv6 then ipv6_path P a
          else
            (case ipv4_texts P a of
               Inl e \<Rightarrow> except_address e
             | Inr (network_str, netmask2_arg) \<Rightarrow>
                 (case ip_network_loose P network_str of
                    Inl e \<Rightarrow> except_address e
                  | Inr initial_network \<Rightarrow>
                      (case ip_address P (before_slash (params a ! 0)) of
                         Inl e \<Rightarrow> except_address e
                       | Inr initial_address \<Rightarrow>
                           after_parsing P a initial_network initial_address netmask2_arg))))"

definition main :: "externals \<Rightarrow> args \<Rightarrow> outcome" where
  "main P a =
     (if version_flag a then PrintedVersion
      else if params a = [] then PrintedHelp
      else if length (params a) > 1 \<and> params a ! 1 = ''-'' then range_mode P a
      else standard_mode P a)"

section \<open>Well-formed addresses and networks\<close>

text \<open>
  The invariant of the library's objects: an address fits its width, and a network
  has a prefix within the width and a base without host bits, which is what both
  constructors establish.
\<close>

definition valid_address :: "address \<Rightarrow> bool" where
  "valid_address a \<longleftrightarrow> 0 \<le> ip a \<and> ip a \<le> ALL_ONES (version a)"

definition valid_network :: "network \<Rightarrow> bool" where
  "valid_network n \<longleftrightarrow>
     valid_address (network_address n) \<and>
     0 \<le> prefixlen n \<and> prefixlen n \<le> max_prefixlen (version (network_address n)) \<and>
     ip (network_address n) AND netmask n = ip (network_address n)"

definition host_bits :: "network \<Rightarrow> nat" where
  "host_bits n = nat (max_prefixlen (version (network_address n)) - prefixlen n)"

text \<open>The addresses of a network, from its base to its broadcast address.\<close>

definition addresses :: "network \<Rightarrow> int set" where
  "addresses n = {ip (network_address n) .. ip (broadcast_address n)}"

text \<open>A network of the given version that satisfies the invariant.\<close>

definition cidr :: "ip_version \<Rightarrow> network \<Rightarrow> bool" where
  "cidr v n \<longleftrightarrow> valid_network n \<and> version (network_address n) = v"

text \<open>
  A list of networks tiles the range from \<open>a\<close> to \<open>b\<close>: the first starts at \<open>a\<close>, each
  next one starts right after the broadcast address of the one before, and the last
  ends at \<open>b\<close>.
\<close>

fun tiles :: "int \<Rightarrow> network list \<Rightarrow> int \<Rightarrow> bool" where
  "tiles a [] b \<longleftrightarrow> a = b + 1"
| "tiles a (n # ns) b \<longleftrightarrow>
     ip (network_address n) = a \<and> tiles (ip (broadcast_address n) + 1) ns b"

text \<open>A finite set of networks of one version whose union is exactly the range.\<close>

definition exact_cover :: "ip_version \<Rightarrow> network set \<Rightarrow> int \<Rightarrow> int \<Rightarrow> bool" where
  "exact_cover v C a b \<longleftrightarrow>
     finite C \<and> (\<forall>n\<in>C. cidr v n) \<and> (\<Union>n\<in>C. addresses n) = {a .. b}"

text \<open>
  A network is maximal in a range when every network inside the range that meets it
  lies within it.
\<close>

definition maximal_in :: "ip_version \<Rightarrow> int \<Rightarrow> int \<Rightarrow> network \<Rightarrow> bool" where
  "maximal_in v a b n \<longleftrightarrow>
     (\<forall>D. cidr v D \<longrightarrow> addresses D \<subseteq> {a .. b} \<longrightarrow> addresses D \<inter> addresses n \<noteq> {} \<longrightarrow>
        addresses D \<subseteq> addresses n)"

section \<open>Facts about the library model\<close>

lemma bit_length_pos: "0 < x \<Longrightarrow> 0 < bit_length x"
  by (simp add: bit_length_def bitlen_alt_def)

lemma nbits_of_nonneg: "first_int \<le> last_int \<Longrightarrow> 0 \<le> nbits_of v first_int last_int"
proof -
  assume le: "first_int \<le> last_int"
  have a: "0 \<le> count_righthand_zero_bits first_int (max_prefixlen v)"
    by (cases v) (simp_all add: count_righthand_zero_bits_def bit_length_def bitlen_nonneg)
  have "0 < bit_length (last_int - first_int + 1)"
    using le by (intro bit_length_pos) simp
  with a show ?thesis by (simp add: nbits_of_def)
qed

lemma all_ones_mask: "ALL_ONES v = mask (nat (max_prefixlen v))"
  by (simp add: ALL_ONES_def mask_eq_exp_minus_1)

lemma prefix_mask_bits:
  fixes m p :: nat
  assumes "p \<le> m"
  shows "(mask m :: int) XOR drop_bit p (mask m) = push_bit (m - p) (mask p)"
  using assms by (intro bit_eqI) (auto simp: bit_simps)

lemma and_prefix_mask:
  fixes x :: int and m k :: nat
  assumes "0 \<le> x" "x < 2 ^ m" "k \<le> m"
  shows "x AND push_bit k (mask (m - k)) = x - x mod 2 ^ k"
proof -
  have tb: "take_bit m x = x"
    using assms by (simp add: take_bit_int_eq_self)
  have "x AND push_bit k (mask (m - k)) = push_bit k (drop_bit k x)"
  proof (rule bit_eqI)
    fix i
    have "bit x i \<Longrightarrow> i < m"
      using tb by (metis bit_take_bit_iff)
    then show "bit (x AND push_bit k (mask (m - k))) i \<longleftrightarrow> bit (push_bit k (drop_bit k x)) i"
      by (auto simp: bit_simps)
  qed
  also have "\<dots> = x - x mod 2 ^ k"
    using bits_ident [of k x] by (simp add: take_bit_eq_mod)
  finally show ?thesis .
qed

lemma ip_int_from_prefix_eq:
  assumes "0 \<le> p" "p \<le> max_prefixlen v"
  shows "ip_int_from_prefix v p = push_bit (nat (max_prefixlen v - p)) (mask (nat p))"
  using assms prefix_mask_bits [of "nat p" "nat (max_prefixlen v)"]
  by (simp add: ip_int_from_prefix_def all_ones_mask nat_diff_distrib)

lemma and_netmask:
  assumes "0 \<le> x" "x \<le> ALL_ONES v" "0 \<le> p" "p \<le> max_prefixlen v"
  shows "x AND ip_int_from_prefix v p = x - x mod 2 ^ nat (max_prefixlen v - p)"
proof -
  let ?m = "nat (max_prefixlen v)" and ?k = "nat (max_prefixlen v - p)"
  have "x < 2 ^ ?m" using assms(2) by (simp add: ALL_ONES_def)
  moreover have "?k \<le> ?m" using assms by simp
  moreover have "?m - ?k = nat p" using assms by simp
  ultimately show ?thesis
    using and_prefix_mask [of x ?m ?k] assms by (simp add: ip_int_from_prefix_eq)
qed

lemma hostmask_bits:
  fixes m p :: nat
  assumes "p \<le> m"
  shows "push_bit (m - p) (mask p) XOR (mask m :: int) = mask (m - p)"
  using assms by (intro bit_eqI) (auto simp: bit_simps)

lemma or_mask_aligned:
  fixes x :: int
  assumes "x mod 2 ^ k = 0"
  shows "x OR mask k = x + 2 ^ k - 1"
proof -
  have x: "x = push_bit k (drop_bit k x)"
    using bits_ident [of k x] assms by (simp add: take_bit_eq_mod)
  have "x + mask k = x OR mask k"
  proof (rule disjunctive_add)
    fix n
    show "\<not> bit x n \<or> \<not> bit (mask k :: int) n"
      by (subst x) (auto simp: bit_simps)
  qed
  then show ?thesis by (simp add: mask_eq_exp_minus_1)
qed

lemma valid_network_iff:
  "valid_network n \<longleftrightarrow>
     0 \<le> ip (network_address n) \<and> ip (network_address n) \<le> ALL_ONES (version (network_address n)) \<and>
     0 \<le> prefixlen n \<and> prefixlen n \<le> max_prefixlen (version (network_address n)) \<and>
     ip (network_address n) mod 2 ^ host_bits n = 0"
  by (auto simp: valid_network_def valid_address_def netmask_def and_netmask host_bits_def)

lemma hostmask_eq:
  assumes "valid_network n"
  shows "hostmask n = 2 ^ host_bits n - 1"
proof -
  let ?v = "version (network_address n)"
  have p: "0 \<le> prefixlen n" "prefixlen n \<le> max_prefixlen ?v"
    using assms by (simp_all add: valid_network_def)
  then have "nat (max_prefixlen ?v) - nat (prefixlen n) = host_bits n"
    by (simp add: host_bits_def)
  with p show ?thesis
    using hostmask_bits [of "nat (prefixlen n)" "nat (max_prefixlen ?v)"]
    by (simp add: hostmask_def netmask_def ip_int_from_prefix_eq all_ones_mask
        mask_eq_exp_minus_1 host_bits_def)
qed

lemma broadcast_eq:
  assumes "valid_network n"
  shows "ip (broadcast_address n) = ip (network_address n) + 2 ^ host_bits n - 1"
  using assms or_mask_aligned [of "ip (network_address n)" "host_bits n"]
  by (simp add: broadcast_address_def hostmask_eq valid_network_iff flip: mask_eq_exp_minus_1)

lemma num_addresses_eq:
  assumes "valid_network n"
  shows "num_addresses n = 2 ^ host_bits n"
  using assms by (simp add: num_addresses_def broadcast_eq)

lemma address_add_valid:
  assumes "0 \<le> ip a + k" "ip a + k \<le> ALL_ONES (version a)"
  shows "address_add a k = Inr \<lparr>version = version a, ip = ip a + k\<rparr>"
  using assms by (simp add: address_add_def new_address_def)

lemma address_sub_valid:
  assumes "0 \<le> ip a - k" "ip a - k \<le> ALL_ONES (version a)"
  shows "address_sub a k = Inr \<lparr>version = version a, ip = ip a - k\<rparr>"
  using assms by (simp add: address_sub_def new_address_def)

lemma two_le_power: "2 \<le> k \<Longrightarrow> (4::int) \<le> 2 ^ k"
  using power_increasing [of 2 k "2::int"] by simp

lemma valid_network_top:
  assumes "valid_network n"
  shows "ip (network_address n) + 2 ^ host_bits n \<le> ALL_ONES (version (network_address n)) + 1"
proof -
  let ?v = "version (network_address n)" and ?x = "ip (network_address n)"
  have v: "0 \<le> ?x" "?x < 2 ^ nat (max_prefixlen ?v)" "?x mod 2 ^ host_bits n = 0"
    "host_bits n \<le> nat (max_prefixlen ?v)"
    using assms by (auto simp: valid_network_iff ALL_ONES_def host_bits_def)
  then obtain d where d: "nat (max_prefixlen ?v) = host_bits n + d"
    using le_Suc_ex by blast
  from v(3) obtain q where q: "?x = 2 ^ host_bits n * q" by (auto simp: mod_eq_0_iff_dvd)
  with v(2) have "2 ^ host_bits n * q < 2 ^ host_bits n * (2 ^ d :: int)"
    by (simp add: d power_add)
  then have "q < 2 ^ d" by simp
  then have "q + 1 \<le> 2 ^ d" by simp
  then have "2 ^ host_bits n * (q + 1) \<le> 2 ^ host_bits n * (2 ^ d :: int)"
    by (simp only: mult_le_cancel_left_pos zero_less_power zero_less_numeral)
  then show ?thesis by (simp add: q ALL_ONES_def d power_add algebra_simps)
qed

section \<open>Classful defaults\<close>

lemma and_128: "(x::int) AND 128 = 0 \<longleftrightarrow> \<not> bit x 7"
  using and_exp_eq_0_iff_not_bit [of x 7] by simp

lemma and_192: "(x::int) AND 192 = 128 \<longleftrightarrow> bit x 7 \<and> \<not> bit x 6"
proof -
  have a: "(192::int) = push_bit 6 (mask 2)"
    by (simp add: mask_eq_exp_minus_1 push_bit_eq_mult)
  have l: "bit (x AND 192) n = (bit x n \<and> 6 \<le> n \<and> n < 8)" for n
    by (subst a) (auto simp: bit_simps)
  have r: "bit (128::int) n = (n = 7)" for n
    using bit_exp_iff [of 7 n, where ?'a = int] by simp
  have "x AND 192 = 128 \<longleftrightarrow> (\<forall>n. (bit x n \<and> 6 \<le> n \<and> n < 8) = (n = 7))"
    by (simp add: bit_eq_iff [of "x AND 192"] l r)
  also have "\<dots> \<longleftrightarrow> bit x 7 \<and> \<not> bit x 6"
  proof
    assume h: "\<forall>n. (bit x n \<and> 6 \<le> n \<and> n < 8) = (n = 7)"
    from h [rule_format, of 7] h [rule_format, of 6] show "bit x 7 \<and> \<not> bit x 6" by simp
  next
    assume h: "bit x 7 \<and> \<not> bit x 6"
    show "\<forall>n. (bit x n \<and> 6 \<le> n \<and> n < 8) = (n = 7)"
    proof
      fix n :: nat
      consider "n < 6" | "n = 6" | "n = 7" | "8 \<le> n" by linarith
      then show "(bit x n \<and> 6 \<le> n \<and> n < 8) = (n = 7)"
        using h by cases auto
    qed
  qed
  finally show ?thesis .
qed

lemma first_octet_bit:
  assumes "version a = IPv4"
  shows "bit (first_octet a) k \<longleftrightarrow> bit (ip a) (k + 24)"
  using assms by (simp add: first_octet_def bit_simps add.commute)

text \<open>
  Claim C8. For an IPv4 address given without a prefix, \<open>main\<close> appends \<open>/8\<close> when the
  first bit of the address (bit 31) is 0, \<open>/16\<close> when the two leading bits are \<open>10\<close>,
  and \<open>/24\<close> in every other case (classes C, D and E).
\<close>

theorem classful_default_prefix:
  assumes "version a = IPv4"
  shows "classful_suffix a =
     (if \<not> bit (ip a) 31 then ''/8'' else if \<not> bit (ip a) 30 then ''/16'' else ''/24'')"
  using assms first_octet_bit [of a 7] first_octet_bit [of a 6]
  by (simp add: classful_suffix_def get_class_def and_128 and_192 Let_def)

theorem classful_default_prefix_witness:
  "version \<lparr>version = IPv4, ip = 2886729729\<rparr> = IPv4 \<and>
   classful_suffix \<lparr>version = IPv4, ip = 2886729729\<rparr> = ''/16''"
  using classful_default_prefix [of "\<lparr>version = IPv4, ip = 2886729729\<rparr>"]
  by simp

section \<open>Host ranges\<close>

text \<open>
  Claim C7. For every IPv4 network, \<open>print_network_info\<close> succeeds and reports: for a
  prefix below 31, a host count of \<open>num_addresses - 2\<close>, which is not negative, and the
  host range from the network address plus one to the broadcast address minus one;
  for prefix 31, both end points as host range and a host count of 2; for prefix 32,
  a host count of 1 and no host range.
\<close>

theorem host_range:
  assumes "valid_network n" "version (network_address n) = IPv4"
  shows "\<exists>info. print_network_info n = Inr info \<and>
     (prefixlen n < 31 \<longrightarrow>
        Hosts_Net info = num_addresses n - 2 \<and> 0 \<le> Hosts_Net info \<and>
        HostMin info = Some \<lparr>version = IPv4, ip = ip (network_address n) + 1\<rparr> \<and>
        HostMax info = Some \<lparr>version = IPv4, ip = ip (broadcast_address n) - 1\<rparr>) \<and>
     (prefixlen n = 31 \<longrightarrow>
        Hosts_Net info = 2 \<and> HostMin info = Some (network_address n) \<and>
        HostMax info = Some (broadcast_address n)) \<and>
     (prefixlen n = 32 \<longrightarrow>
        Hosts_Net info = 1 \<and> HostMin info = None \<and> HostMax info = None)"
proof -
  let ?x = "ip (network_address n)"
  have v: "0 \<le> ?x" "0 \<le> prefixlen n" "prefixlen n \<le> 32"
    using assms by (simp_all add: valid_network_iff)
  have top: "?x + 2 ^ host_bits n \<le> 2 ^ 32"
    using valid_network_top [OF assms(1)] assms(2) by (simp add: ALL_ONES_def)
  have num: "num_addresses n = 2 ^ host_bits n"
    by (rule num_addresses_eq [OF assms(1)])
  have bc: "ip (broadcast_address n) = ?x + 2 ^ host_bits n - 1"
    by (rule broadcast_eq [OF assms(1)])
  have bv: "version (broadcast_address n) = IPv4"
    using assms(2) by (simp add: broadcast_address_def)
  consider (lt) "prefixlen n < 31" | (p31) "prefixlen n = 31" | (p32) "prefixlen n = 32"
    using v by linarith
  then show ?thesis
  proof cases
    case lt
    then have "2 \<le> host_bits n" using assms(2) by (simp add: host_bits_def)
    then have big: "(4::int) \<le> 2 ^ host_bits n" by (rule two_le_power)
    have hmin: "address_add (network_address n) 1 = Inr \<lparr>version = IPv4, ip = ?x + 1\<rparr>"
      using address_add_valid [of "network_address n" 1] v top big assms(2)
      by (simp add: ALL_ONES_def)
    have hmax: "address_sub (broadcast_address n) 1
        = Inr \<lparr>version = IPv4, ip = ip (broadcast_address n) - 1\<rparr>"
      using address_sub_valid [of "broadcast_address n" 1] v top big bv
      by (simp add: ALL_ONES_def bc)
    show ?thesis
      using lt big by (simp add: print_network_info_def hmin hmax hosts_count_def num Let_def)
  next
    case p31
    then have "host_bits n = 1" using assms(2) by (simp add: host_bits_def)
    then show ?thesis
      using p31 by (simp add: print_network_info_def hosts_count_def num Let_def)
  next
    case p32
    then have "host_bits n = 0" using assms(2) by (simp add: host_bits_def)
    then show ?thesis
      using p32 by (simp add: print_network_info_def hosts_count_def num Let_def)
  qed
qed

theorem host_range_witness:
  "valid_network \<lparr>network_address = \<lparr>version = IPv4, ip = 3221225984\<rparr>, prefixlen = 24\<rparr> \<and>
   (\<exists>info.
      print_network_info
        \<lparr>network_address = \<lparr>version = IPv4, ip = 3221225984\<rparr>, prefixlen = 24\<rparr> = Inr info \<and>
      Hosts_Net info = 254 \<and>
      HostMin info = Some \<lparr>version = IPv4, ip = 3221225985\<rparr> \<and>
      HostMax info = Some \<lparr>version = IPv4, ip = 3221226238\<rparr>)"
proof -
  let ?n = "\<lparr>network_address = \<lparr>version = IPv4, ip = 3221225984\<rparr>, prefixlen = 24\<rparr>"
  have v: "valid_network ?n" by code_simp
  have b: "ip (broadcast_address ?n) = 3221226239" by code_simp
  have c: "num_addresses ?n = 256" by code_simp
  from host_range [OF v] b c v show ?thesis by auto
qed

section \<open>VLSM allocation\<close>

text \<open>
  Claim C2. Host requirements 50, 20, 10 inside 192.0.2.0/24 get block sizes 64, 32 and
  16; the blocks are placed largest first from 192.0.2.0 and come back in the
  caller's order: 192.0.2.0/26, 192.0.2.64/27, 192.0.2.96/28.
\<close>

theorem vlsm_example:
  "map_sum id (map block_size) (needed_blocks dbl 0 [50, 20, 10]) = Inr [64, 32, 16] \<and>
   handle_split_network dbl
     \<lparr>network_address = \<lparr>version = IPv4, ip = 3221225984\<rparr>, prefixlen = 24\<rparr> [50, 20, 10] =
   Inr (Allocated
     [Some \<lparr>network_address = \<lparr>version = IPv4, ip = 3221225984\<rparr>, prefixlen = 26\<rparr>,
      Some \<lparr>network_address = \<lparr>version = IPv4, ip = 3221226048\<rparr>, prefixlen = 27\<rparr>,
      Some \<lparr>network_address = \<lparr>version = IPv4, ip = 3221226080\<rparr>, prefixlen = 28\<rparr>])"
  by code_simp

lemma sum_list_insort_key:
  "sum_list (map g (insort_key f x xs)) = g x + sum_list (map g xs)"
  for g :: "'a \<Rightarrow> int"
  by (induction xs) simp_all

lemma sum_list_sort_key:
  "sum_list (map g (sort_key f xs)) = sum_list (map g xs)"
  for g :: "'a \<Rightarrow> int"
  by (induction xs) (simp_all add: sum_list_insort_key)

text \<open>
  Claim C3. Whenever the sizing loop succeeds and the sum of the block sizes it
  computed exceeds the address count of the parent network, \<open>handle_split_network\<close>
  ends with the capacity message, which carries that sum and the address count, and
  allocates nothing. This holds whatever the double-precision logarithm gives for the
  sizes above \<open>2 ^ 32\<close>.
\<close>

theorem capacity_exceeded:
  assumes "needed_blocks dbl 0 sizes = Inr blocks"
    and "num_addresses net < sum_list (map block_size blocks)"
  shows "handle_split_network dbl net sizes =
     Inr (CapacityExceeded (sum_list (map block_size blocks)) (num_addresses net))"
  using assms by (simp add: handle_split_network_def sort_blocks_def sum_list_sort_key)

theorem capacity_exceeded_witness:
  "needed_blocks real_ceil_log2 0 [200, 100] =
     Inr [\<lparr>original_size = 200, block_size = 256, original_index = 0\<rparr>,
          \<lparr>original_size = 100, block_size = 128, original_index = 1\<rparr>] \<and>
   handle_split_network real_ceil_log2
     \<lparr>network_address = \<lparr>version = IPv4, ip = 3221225984\<rparr>, prefixlen = 24\<rparr> [200, 100] =
   Inr (CapacityExceeded 384 256)"
proof -
  let ?n = "\<lparr>network_address = \<lparr>version = IPv4, ip = 3221225984\<rparr>, prefixlen = 24\<rparr>"
  have b: "needed_blocks real_ceil_log2 0 [200, 100] =
     Inr [\<lparr>original_size = 200, block_size = 256, original_index = 0\<rparr>,
          \<lparr>original_size = 100, block_size = 128, original_index = 1\<rparr>]"
    by code_simp
  have c: "num_addresses ?n = 256" by code_simp
  from capacity_exceeded [OF b, of ?n] c b show ?thesis by simp
qed

text \<open>
  Claim C1 at the top of the address space. The request for 254 hosts fits
  255.255.255.0/24 exactly; the block is placed, and the advance of the cursor
  past 255.255.255.255 raises \<open>AddressValueError\<close>, so nothing is returned.
\<close>

theorem vlsm_top_of_address_space:
  "valid_network \<lparr>network_address = \<lparr>version = IPv4, ip = 4294967040\<rparr>, prefixlen = 24\<rparr> \<and>
   map_sum id (map block_size) (needed_blocks dbl 0 [254]) = Inr [256] \<and>
   num_addresses \<lparr>network_address = \<lparr>version = IPv4, ip = 4294967040\<rparr>, prefixlen = 24\<rparr> = 256 \<and>
   handle_split_network dbl
     \<lparr>network_address = \<lparr>version = IPv4, ip = 4294967040\<rparr>, prefixlen = 24\<rparr> [254] =
   Inl (AddressValueError 4294967296)"
  by code_simp

section \<open>Prefix transitions\<close>

lemma and_shifted_mask:
  fixes x :: int and m k q :: nat
  assumes "0 \<le> x" "x < 2 ^ m" "m \<le> k + q"
  shows "x AND push_bit k (mask q) = x - x mod 2 ^ k"
proof -
  have tb: "take_bit m x = x"
    using assms by (simp add: take_bit_int_eq_self)
  have "x AND push_bit k (mask q) = push_bit k (drop_bit k x)"
  proof (rule bit_eqI)
    fix i
    have "bit x i \<Longrightarrow> i < m"
      using tb by (metis bit_take_bit_iff)
    with assms(3) show "bit (x AND push_bit k (mask q)) i \<longleftrightarrow> bit (push_bit k (drop_bit k x)) i"
      by (auto simp: bit_simps)
  qed
  also have "\<dots> = x - x mod 2 ^ k"
    using bits_ident [of k x] by (simp add: take_bit_eq_mod)
  finally show ?thesis .
qed

lemma new_network_strict:
  assumes "valid_address a" "0 \<le> p" "p \<le> max_prefixlen (version a)"
    and "ip a mod 2 ^ nat (max_prefixlen (version a) - p) = 0"
  shows "new_network True a p = Inr \<lparr>network_address = a, prefixlen = p\<rparr>"
  using assms by (simp add: new_network_def valid_address_def and_netmask Let_def)

lemma network_of_int_aligned:
  assumes "0 \<le> x" "x \<le> ALL_ONES v" "0 \<le> p" "p \<le> max_prefixlen v"
    and "x mod 2 ^ nat (max_prefixlen v - p) = 0"
  shows "network_of_int v x p = Inr \<lparr>network_address = \<lparr>version = v, ip = x\<rparr>, prefixlen = p\<rparr>"
  using assms new_network_strict [of "\<lparr>version = v, ip = x\<rparr>" p]
  by (simp add: network_of_int_def new_address_def valid_address_def)

lemma network_of_int_valid:
  assumes "0 \<le> x" "x \<le> ALL_ONES v" "0 \<le> p" "p \<le> max_prefixlen v"
    and "x mod 2 ^ nat (max_prefixlen v - p) = 0"
  shows "valid_network \<lparr>network_address = \<lparr>version = v, ip = x\<rparr>, prefixlen = p\<rparr>"
  using assms by (simp add: valid_network_iff host_bits_def)

lemma map_result_all:
  assumes "\<And>x. x \<in> set xs \<Longrightarrow> f x = Inr (g x)"
  shows "map_result f xs = Inr (map g xs)"
  using assms by (induction xs) simp_all

lemma py_range_blocks:
  fixes step :: int
  assumes "0 < step"
  shows "py_range start (start + int k * step) step = map (\<lambda>i. start + int i * step) [0 ..< k]"
proof -
  have "(int k * step + step - 1) div step = int k"
  proof -
    have "(int k * step + step - 1) div step = (step - 1 + int k * step) div step"
      by (simp add: algebra_simps)
    also have "\<dots> = (step - 1) div step + int k"
      using assms by (subst div_mult_self1) simp_all
    also have "(step - 1) div step = 0"
      using assms by (simp add: div_pos_pos_trivial)
    finally show ?thesis by simp
  qed
  then show ?thesis by (simp add: py_range_def)
qed

text \<open>The subnets of a valid network at a longer prefix, in closed form.\<close>

lemma subnets_eq:
  assumes v: "valid_network n" and lt: "prefixlen n < q"
    and le: "q \<le> max_prefixlen (version (network_address n))"
  shows "subnets n q =
     Inr (map (\<lambda>i. \<lparr>network_address =
                      \<lparr>version = version (network_address n),
                       ip = ip (network_address n)
                            + int i * 2 ^ nat (max_prefixlen (version (network_address n)) - q)\<rparr>,
                    prefixlen = q\<rparr>)
            [0 ..< 2 ^ nat (q - prefixlen n)])"
proof -
  let ?v = "version (network_address n)" and ?x = "ip (network_address n)"
  let ?M = "max_prefixlen ?v" and ?p = "prefixlen n"
  let ?d = "nat (q - ?p)" and ?s = "nat (?M - q)"
  have vn: "0 \<le> ?x" "0 \<le> ?p" "?x mod 2 ^ host_bits n = 0"
    using v by (simp_all add: valid_network_iff)
  have hb: "host_bits n = ?d + ?s"
    using lt le vn by (simp add: host_bits_def)
  have top: "?x + 2 ^ host_bits n \<le> ALL_ONES ?v + 1"
    by (rule valid_network_top [OF v])
  have hm: "hostmask n + 1 = 2 ^ host_bits n"
    by (simp add: hostmask_eq [OF v])
  have step: "drop_bit ?d (hostmask n + 1) = (2 ^ ?s :: int)"
    by (simp add: hm hb drop_bit_eq_div power_add)
  have "ip (broadcast_address n) + 1 = ?x + int (2 ^ ?d) * 2 ^ ?s"
    by (simp add: broadcast_eq [OF v] hb power_add)
  then have range: "py_range ?x (ip (broadcast_address n) + 1) (2 ^ ?s)
      = map (\<lambda>i. ?x + int i * 2 ^ ?s) [0 ..< 2 ^ ?d]"
    using py_range_blocks [of "2 ^ ?s" ?x "2 ^ ?d"] by simp
  have each: "network_of_int ?v y q
      = Inr \<lparr>network_address = \<lparr>version = ?v, ip = y\<rparr>, prefixlen = q\<rparr>"
    if "y \<in> set (map (\<lambda>i. ?x + int i * 2 ^ ?s) [0 ..< 2 ^ ?d])" for y
  proof -
    from that obtain i where i: "i < 2 ^ ?d" "y = ?x + int i * 2 ^ ?s" by auto
    have "(2::int) ^ ?s dvd 2 ^ host_bits n" by (simp add: hb power_add)
    moreover have "(2::int) ^ host_bits n dvd ?x" using vn(3) by (simp add: mod_eq_0_iff_dvd)
    ultimately have "(2::int) ^ ?s dvd ?x" by (rule dvd_trans)
    then have al: "y mod 2 ^ ?s = 0" by (simp add: i(2) mod_eq_0_iff_dvd)
    have "int i + 1 \<le> 2 ^ ?d" using i(1)
      by (metis Suc_leI of_nat_Suc of_nat_le_iff of_nat_numeral of_nat_power add.commute of_nat_1 of_nat_add)
    then have "(int i + 1) * 2 ^ ?s \<le> 2 ^ ?d * (2 ^ ?s :: int)"
      by (simp only: mult_le_cancel_right_pos zero_less_power zero_less_numeral)
    then have "y + 2 ^ ?s \<le> ?x + 2 ^ host_bits n"
      by (simp add: i(2) hb power_add algebra_simps)
    moreover have "(0::int) < 2 ^ ?s" by simp
    ultimately have "y \<le> ALL_ONES ?v" using top by linarith
    moreover have "0 \<le> y" using vn(1) by (simp add: i(2))
    moreover have "0 \<le> q" using lt vn(2) by simp
    ultimately show ?thesis using le al by (intro network_of_int_aligned) simp_all
  qed
  have mr: "map_result (\<lambda>new_addr. network_of_int ?v new_addr q)
        (map (\<lambda>i. ?x + int i * 2 ^ ?s) [0 ..< 2 ^ ?d])
      = Inr (map (\<lambda>y. \<lparr>network_address = \<lparr>version = ?v, ip = y\<rparr>, prefixlen = q\<rparr>)
               (map (\<lambda>i. ?x + int i * 2 ^ ?s) [0 ..< 2 ^ ?d]))"
    by (rule map_result_all) (rule each)
  have ne: "?p \<noteq> ?M" using lt le by simp
  have "(2::int) ^ ?s \<noteq> 0" by simp
  then show ?thesis
    using lt le ne
    by (simp add: subnets_def Let_def step range mr comp_def)
qed

lemma supernet_eq:
  assumes v: "valid_network s" and p: "0 \<le> p" "p \<le> prefixlen s"
  shows "supernet s p =
     Inr \<lparr>network_address =
            \<lparr>version = version (network_address s),
             ip = ip (network_address s)
                  - ip (network_address s) mod 2 ^ nat (max_prefixlen (version (network_address s)) - p)\<rparr>,
          prefixlen = p\<rparr>"
proof -
  let ?v = "version (network_address s)" and ?x = "ip (network_address s)"
  let ?M = "max_prefixlen ?v" and ?q = "prefixlen s"
  let ?k = "nat (?M - p)"
  have vs: "0 \<le> ?x" "?x \<le> ALL_ONES ?v" "0 \<le> ?q" "?q \<le> ?M" "?x mod 2 ^ host_bits s = 0"
    using v by (simp_all add: valid_network_iff)
  show ?thesis
  proof (cases "?q = 0")
    case True
    then have p0: "p = 0" using p by simp
    have "?x < 2 ^ nat ?M" using vs(2) by (simp add: ALL_ONES_def)
    then have "?x mod 2 ^ nat ?M = ?x" using vs(1) by simp
    moreover have "?x mod 2 ^ nat ?M = 0" using vs(5) True by (simp add: host_bits_def)
    ultimately have "?x = 0" by simp
    then show ?thesis using True p0 by (simp add: supernet_def)
  next
    case False
    have nm: "netmask s = push_bit (nat (?M - ?q)) (mask (nat ?q))"
      using vs by (simp add: netmask_def ip_int_from_prefix_eq)
    have sh: "push_bit (nat (?q - p)) (netmask s) = push_bit ?k (mask (nat ?q))"
    proof -
      have "nat (?q - p) + nat (?M - ?q) = ?k" using p vs by simp
      then show ?thesis by (simp add: nm push_bit_push_bit add.commute)
    qed
    have lt: "?x < 2 ^ nat ?M" using vs(2) by (simp add: ALL_ONES_def)
    have "nat ?M \<le> ?k + nat ?q" using p vs by simp
    from and_shifted_mask [OF vs(1) lt this]
    have a: "?x AND push_bit (nat (?q - p)) (netmask s) = ?x - ?x mod 2 ^ ?k"
      by (simp add: sh)
    have m: "0 \<le> ?x mod 2 ^ ?k" "?x mod 2 ^ ?k \<le> ?x"
      using vs(1) by (simp_all add: zmod_le_nonneg_dividend)
    have al: "(?x - ?x mod 2 ^ ?k) mod 2 ^ ?k = 0"
      by (simp add: mod_diff_right_eq)
    have lo: "0 \<le> ?x - ?x mod 2 ^ ?k" and hi: "?x - ?x mod 2 ^ ?k \<le> ALL_ONES ?v"
      using m vs by linarith+
    have pM: "p \<le> ?M" using p vs by simp
    have "network_of_int ?v (?x - ?x mod 2 ^ ?k) p
        = Inr \<lparr>network_address = \<lparr>version = ?v, ip = ?x - ?x mod 2 ^ ?k\<rparr>, prefixlen = p\<rparr>"
      using lo hi p(1) pM al by (rule network_of_int_aligned)
    then show ?thesis
      using False p by (simp add: supernet_def Let_def a)
  qed
qed

text \<open>
  Claim C9. For every network and every longer prefix within the width, \<open>subnets\<close>
  succeeds with at least one subnet, and the supernet of each subnet at the original
  prefix is the original network: same base address, same prefix.
\<close>

theorem narrow_then_widen:
  assumes v: "valid_network n" and lt: "prefixlen n < q"
    and le: "q \<le> max_prefixlen (version (network_address n))"
  shows "\<exists>subs. subnets n q = Inr subs \<and> subs \<noteq> [] \<and>
     (\<forall>s\<in>set subs. prefixlen s = q \<and> supernet s (prefixlen n) = Inr n)"
proof -
  let ?v = "version (network_address n)" and ?x = "ip (network_address n)"
  let ?M = "max_prefixlen ?v" and ?p = "prefixlen n"
  let ?d = "nat (q - ?p)" and ?s = "nat (?M - q)"
  let ?sub = "\<lambda>i. \<lparr>network_address = \<lparr>version = ?v, ip = ?x + int i * 2 ^ ?s\<rparr>, prefixlen = q\<rparr>"
  have vn: "0 \<le> ?x" "0 \<le> ?p" "?x mod 2 ^ host_bits n = 0"
    using v by (simp_all add: valid_network_iff)
  have hb: "host_bits n = ?d + ?s"
    using lt le vn by (simp add: host_bits_def)
  have top: "?x + 2 ^ host_bits n \<le> ALL_ONES ?v + 1"
    by (rule valid_network_top [OF v])
  have subs: "subnets n q = Inr (map ?sub [0 ..< 2 ^ ?d])"
    by (rule subnets_eq [OF v lt le])
  have widen: "prefixlen (?sub i) = q \<and> supernet (?sub i) ?p = Inr n" if i: "i < 2 ^ ?d" for i
  proof -
    let ?y = "?x + int i * 2 ^ ?s"
    have "int i + 1 \<le> 2 ^ ?d" using i
      by (metis Suc_leI of_nat_Suc of_nat_le_iff of_nat_numeral of_nat_power add.commute of_nat_1 of_nat_add)
    then have "(int i + 1) * 2 ^ ?s \<le> 2 ^ ?d * (2 ^ ?s :: int)"
      by (simp only: mult_le_cancel_right_pos zero_less_power zero_less_numeral)
    then have off: "int i * 2 ^ ?s + 2 ^ ?s \<le> (2 ^ host_bits n :: int)"
      by (simp add: hb power_add algebra_simps)
    have pos: "(0::int) < 2 ^ ?s" by simp
    have ylt: "int i * 2 ^ ?s < (2 ^ host_bits n :: int)" using off pos by linarith
    have "(2::int) ^ ?s dvd 2 ^ host_bits n" by (simp add: hb power_add)
    moreover have "(2::int) ^ host_bits n dvd ?x" using vn(3) by (simp add: mod_eq_0_iff_dvd)
    ultimately have "(2::int) ^ ?s dvd ?x" by (rule dvd_trans)
    then have al: "?y mod 2 ^ ?s = 0" by (simp add: mod_eq_0_iff_dvd)
    have y0: "0 \<le> ?y" using vn(1) by simp
    have yt: "?y \<le> ALL_ONES ?v" using top ylt by linarith
    have q0: "0 \<le> q" using lt vn(2) by simp
    have vs: "valid_network (?sub i)"
      using y0 yt q0 le al by (intro network_of_int_valid) simp_all
    have "?y mod 2 ^ host_bits n = (?x mod 2 ^ host_bits n + int i * 2 ^ ?s) mod 2 ^ host_bits n"
      by (simp add: mod_add_left_eq)
    also have "\<dots> = int i * 2 ^ ?s"
      using ylt by (simp add: vn(3))
    finally have md: "?y mod 2 ^ host_bits n = int i * 2 ^ ?s" .
    have "supernet (?sub i) ?p
        = Inr \<lparr>network_address = \<lparr>version = ?v, ip = ?y - ?y mod 2 ^ nat (?M - ?p)\<rparr>,
               prefixlen = ?p\<rparr>"
      using supernet_eq [OF vs, of ?p] vn(2) lt by simp
    also have "?y - ?y mod 2 ^ nat (?M - ?p) = ?x"
      using md by (simp add: host_bits_def)
    finally show ?thesis by simp
  qed
  have "map ?sub [0 ..< 2 ^ ?d] \<noteq> []" by simp
  moreover have "\<forall>s\<in>set (map ?sub [0 ..< 2 ^ ?d]). prefixlen s = q \<and> supernet s ?p = Inr n"
    using widen by auto
  ultimately show ?thesis using subs by blast
qed

theorem narrow_then_widen_witness:
  "valid_network \<lparr>network_address = \<lparr>version = IPv4, ip = 3221225984\<rparr>, prefixlen = 24\<rparr> \<and>
   subnets \<lparr>network_address = \<lparr>version = IPv4, ip = 3221225984\<rparr>, prefixlen = 24\<rparr> 25
     = Inr [\<lparr>network_address = \<lparr>version = IPv4, ip = 3221225984\<rparr>, prefixlen = 25\<rparr>,
            \<lparr>network_address = \<lparr>version = IPv4, ip = 3221226112\<rparr>, prefixlen = 25\<rparr>] \<and>
   supernet \<lparr>network_address = \<lparr>version = IPv4, ip = 3221225984\<rparr>, prefixlen = 25\<rparr> 24
     = Inr \<lparr>network_address = \<lparr>version = IPv4, ip = 3221225984\<rparr>, prefixlen = 24\<rparr> \<and>
   supernet \<lparr>network_address = \<lparr>version = IPv4, ip = 3221226112\<rparr>, prefixlen = 25\<rparr> 24
     = Inr \<lparr>network_address = \<lparr>version = IPv4, ip = 3221225984\<rparr>, prefixlen = 24\<rparr>"
proof -
  let ?n = "\<lparr>network_address = \<lparr>version = IPv4, ip = 3221225984\<rparr>, prefixlen = 24\<rparr>"
  have v: "valid_network ?n" by code_simp
  have s: "subnets ?n 25
     = Inr [\<lparr>network_address = \<lparr>version = IPv4, ip = 3221225984\<rparr>, prefixlen = 25\<rparr>,
            \<lparr>network_address = \<lparr>version = IPv4, ip = 3221226112\<rparr>, prefixlen = 25\<rparr>]"
    by code_simp
  from narrow_then_widen [OF v, of 25] v s show ?thesis by simp
qed

lemma new_address_valid:
  assumes "new_address v x = Inr a"
  shows "valid_address a \<and> version a = v \<and> ip a = x"
  using assms by (auto simp: new_address_def valid_address_def split: if_splits)

lemma new_network_valid:
  assumes "new_network strict a p = Inr s" "valid_address a"
  shows "valid_network s \<and> version (network_address s) = version a \<and> prefixlen s = p"
proof -
  let ?v = "version a" and ?x = "ip a"
  let ?k = "nat (max_prefixlen ?v - p)"
  from assms(1) have p: "0 \<le> p" "p \<le> max_prefixlen ?v"
    by (auto simp: new_network_def split: if_splits)
  have x: "0 \<le> ?x" "?x \<le> ALL_ONES ?v"
    using assms(2) by (simp_all add: valid_address_def)
  have a: "?x AND ip_int_from_prefix ?v p = ?x - ?x mod 2 ^ ?k"
    by (rule and_netmask [OF x p])
  have m: "0 \<le> ?x mod 2 ^ ?k" "?x mod 2 ^ ?k \<le> ?x"
    using x(1) by (simp_all add: zmod_le_nonneg_dividend)
  have lo: "0 \<le> ?x - ?x mod 2 ^ ?k" and hi: "?x - ?x mod 2 ^ ?k \<le> ALL_ONES ?v"
    using m x by linarith+
  have al: "(?x - ?x mod 2 ^ ?k) mod 2 ^ ?k = 0"
    by (simp add: mod_diff_right_eq)
  show ?thesis
  proof (cases "?x mod 2 ^ ?k = 0")
    case True
    with assms(1) p a have "s = \<lparr>network_address = a, prefixlen = p\<rparr>"
      by (simp add: new_network_def Let_def)
    then show ?thesis
      using True x p by (simp add: valid_network_iff host_bits_def)
  next
    case False
    with assms(1) p a m have "s = \<lparr>network_address = a\<lparr>ip := ?x - ?x mod 2 ^ ?k\<rparr>, prefixlen = p\<rparr>"
      by (simp add: new_network_def Let_def split: if_splits)
    then show ?thesis
      using lo hi al p by (simp add: valid_network_iff host_bits_def)
  qed
qed

lemma network_of_int_Inr_valid:
  assumes "network_of_int v x p = Inr s"
  shows "valid_network s \<and> version (network_address s) = v"
proof -
  from assms obtain a where a: "new_address v x = Inr a" "new_network True a p = Inr s"
    by (auto simp: network_of_int_def split: sum.splits)
  from new_address_valid [OF a(1)] new_network_valid [OF a(2)] show ?thesis by simp
qed

lemma map_result_Inr_set:
  assumes "map_result f xs = Inr ys" "y \<in> set ys"
  shows "\<exists>x\<in>set xs. f x = Inr y"
  using assms by (induction xs arbitrary: ys) (auto split: sum.splits)

lemma map_result_succeeds:
  assumes "\<And>x. x \<in> set xs \<Longrightarrow> \<exists>y. f x = Inr y"
  shows "\<exists>ys. map_result f xs = Inr ys"
  using assms
proof (induction xs)
  case Nil
  then show ?case by simp
next
  case (Cons x xs)
  then obtain y ys where "f x = Inr y" "map_result f xs = Inr ys"
    by (metis list.set_intros(1,2))
  then show ?case by simp
qed

lemma subnets_valid:
  assumes "valid_network n" "subnets n q = Inr subs" "s \<in> set subs"
  shows "valid_network s \<and> version (network_address s) = version (network_address n)"
proof (cases "prefixlen n = max_prefixlen (version (network_address n))")
  case True
  with assms show ?thesis by (auto simp: subnets_def)
next
  case False
  with assms(2) obtain xs where
    "map_result (\<lambda>new_addr. network_of_int (version (network_address n)) new_addr
        (prefixlen n + (q - prefixlen n))) xs = Inr subs"
    by (auto simp: subnets_def Let_def split: if_splits)
  from map_result_Inr_set [OF this assms(3)] network_of_int_Inr_valid show ?thesis
    by blast
qed

lemma supernet_valid:
  assumes "valid_network n" "supernet n q = Inr s"
  shows "valid_network s \<and> version (network_address s) = version (network_address n)"
proof (cases "prefixlen n = 0")
  case True
  with assms show ?thesis by (simp add: supernet_def)
next
  case False
  with assms(2) show ?thesis
    by (auto simp: supernet_def Let_def split: if_splits dest: network_of_int_Inr_valid)
qed

lemma print_network_info_succeeds:
  assumes "valid_network n"
  shows "\<exists>info. print_network_info n = Inr info"
proof (cases "prefixlen n < 31")
  case True
  let ?v = "version (network_address n)" and ?x = "ip (network_address n)"
  have v: "0 \<le> ?x" "0 \<le> prefixlen n"
    using assms by (simp_all add: valid_network_iff)
  have top: "?x + 2 ^ host_bits n \<le> ALL_ONES ?v + 1"
    by (rule valid_network_top [OF assms])
  have bc: "ip (broadcast_address n) = ?x + 2 ^ host_bits n - 1"
    by (rule broadcast_eq [OF assms])
  have "2 \<le> host_bits n" using True by (cases ?v) (simp_all add: host_bits_def)
  then have big: "(4::int) \<le> 2 ^ host_bits n" by (rule two_le_power)
  have hmin: "address_add (network_address n) 1 = Inr \<lparr>version = ?v, ip = ?x + 1\<rparr>"
    using v top big by (intro address_add_valid) simp_all
  have bv: "version (broadcast_address n) = ?v"
    by (simp add: broadcast_address_def)
  have hmax: "address_sub (broadcast_address n) 1
      = Inr \<lparr>version = version (broadcast_address n), ip = ip (broadcast_address n) - 1\<rparr>"
    using v top big by (intro address_sub_valid) (simp_all add: bc bv)
  show ?thesis
    using True by (simp add: print_network_info_def hmin hmax)
next
  case False
  then show ?thesis by (simp add: print_network_info_def)
qed

lemma second_netmask_cases:
  assumes v: "valid_network n" and v4: "version (network_address n) = IPv4"
  shows "(q < 0 \<or> 32 < q \<longrightarrow>
            second_netmask n q = Inl (ValueError ''Prefix must be between 0 and 32.'')) \<and>
         (prefixlen n < q \<and> q \<le> 32 \<longrightarrow>
            (\<exists>subs infos. subnets n q = Inr subs \<and>
               map_result print_network_info (take 1000 subs) = Inr infos \<and>
               second_netmask n q = Inr (Subnets infos (1000 < length subs)))) \<and>
         (0 \<le> q \<and> q < prefixlen n \<longrightarrow>
            (\<exists>super info. supernet n q = Inr super \<and> print_network_info super = Inr info \<and>
               second_netmask n q = Inr (Supernet info))) \<and>
         (q = prefixlen n \<longrightarrow> second_netmask n q = Inr NoTransition)"
proof (intro conjI impI)
  assume "q < 0 \<or> 32 < q"
  then show "second_netmask n q = Inl (ValueError ''Prefix must be between 0 and 32.'')"
    by (auto simp: second_netmask_def)
next
  assume q: "prefixlen n < q \<and> q \<le> 32"
  have p0: "0 \<le> prefixlen n" using v by (simp add: valid_network_iff)
  from subnets_eq [OF v, of q] q v4 obtain subs where subs: "subnets n q = Inr subs"
    by auto
  have "\<exists>info. print_network_info s = Inr info" if "s \<in> set (take 1000 subs)" for s
  proof -
    from that have "s \<in> set subs" by (rule in_set_takeD)
    from subnets_valid [OF v subs this] show ?thesis
      by (intro print_network_info_succeeds) simp
  qed
  then obtain infos where "map_result print_network_info (take 1000 subs) = Inr infos"
    using map_result_succeeds [of "take 1000 subs" print_network_info] by blast
  with subs q p0
  show "\<exists>subs infos. subnets n q = Inr subs \<and>
          map_result print_network_info (take 1000 subs) = Inr infos \<and>
          second_netmask n q = Inr (Subnets infos (1000 < length subs))"
    by (simp add: second_netmask_def)
next
  assume q: "0 \<le> q \<and> q < prefixlen n"
  have p32: "prefixlen n \<le> 32" using v v4 by (simp add: valid_network_iff)
  from supernet_eq [OF v, of q] q obtain super where super: "supernet n q = Inr super"
    by auto
  from supernet_valid [OF v super] print_network_info_succeeds
  obtain info where "print_network_info super = Inr info" by blast
  with super q p32
  show "\<exists>super info. supernet n q = Inr super \<and> print_network_info super = Inr info \<and>
          second_netmask n q = Inr (Supernet info)"
    by (simp add: second_netmask_def)
next
  assume "q = prefixlen n"
  moreover have "0 \<le> prefixlen n" "prefixlen n \<le> 32"
    using v v4 by (simp_all add: valid_network_iff)
  ultimately show "second_netmask n q = Inr NoTransition"
    by (simp add: second_netmask_def)
qed

lemma subnets_own_prefix:
  assumes v: "valid_network n"
  shows "subnets n (prefixlen n) = Inr [n]"
proof (cases "prefixlen n = max_prefixlen (version (network_address n))")
  case True
  then show ?thesis by (simp add: subnets_def)
next
  case False
  let ?v = "version (network_address n)" and ?x = "ip (network_address n)"
  have vn: "0 \<le> ?x" "?x \<le> ALL_ONES ?v" "0 \<le> prefixlen n" "prefixlen n \<le> max_prefixlen ?v"
    "?x mod 2 ^ host_bits n = 0"
    using v by (simp_all add: valid_network_iff)
  have hm: "hostmask n + 1 = 2 ^ host_bits n" by (simp add: hostmask_eq [OF v])
  have "ip (broadcast_address n) + 1 = ?x + int 1 * 2 ^ host_bits n"
    by (simp add: broadcast_eq [OF v])
  then have range: "py_range ?x (ip (broadcast_address n) + 1) (2 ^ host_bits n) = [?x]"
    using py_range_blocks [of "2 ^ host_bits n" ?x 1] by simp
  have one: "network_of_int ?v ?x (prefixlen n)
      = Inr \<lparr>network_address = \<lparr>version = ?v, ip = ?x\<rparr>, prefixlen = prefixlen n\<rparr>"
    using vn by (intro network_of_int_aligned) (simp_all add: host_bits_def)
  have "\<lparr>network_address = \<lparr>version = ?v, ip = ?x\<rparr>, prefixlen = prefixlen n\<rparr> = n" by simp
  with one have one': "network_of_int ?v ?x (prefixlen n) = Inr n" by simp
  have "(2::int) ^ host_bits n \<noteq> 0" by simp
  then show ?thesis
    using False vn(4) by (simp add: subnets_def Let_def hm range one')
qed

lemma supernet_own_prefix:
  assumes v: "valid_network n"
  shows "supernet n (prefixlen n) = Inr n"
proof -
  let ?x = "ip (network_address n)"
  have p: "0 \<le> prefixlen n" "?x mod 2 ^ host_bits n = 0"
    using v by (simp_all add: valid_network_iff)
  from supernet_eq [OF v p(1) order_refl] p(2) show ?thesis
    by (simp add: host_bits_def)
qed

lemma subnets_refused:
  assumes "prefixlen n \<noteq> max_prefixlen (version (network_address n))"
    and "q < prefixlen n \<or> max_prefixlen (version (network_address n)) < q"
  shows "\<exists>msg. subnets n q = Inl (ValueError msg)"
  using assms by (auto simp: subnets_def Let_def)

lemma supernet_refused:
  assumes "prefixlen n \<noteq> 0" "prefixlen n < q"
  shows "supernet n q = Inl (ValueError ''new prefix must be shorter'')"
  using assms by (simp add: supernet_def)

lemma second_netmask_reported:
  assumes v: "valid_network n" and v4: "version (network_address n) = IPv4"
    and a: "\<not> print_class a" "split_opt a = None \<or> split_opt a = Some []"
    and t: "t \<noteq> []" "int_of_text P t = Inr q"
  shows "\<exists>info. print_network_info n = Inr info \<and>
     after_parsing P a n addr (Some t) =
       (case second_netmask n q of
          Inl e \<Rightarrow> InvalidSecondNetmask info e
        | Inr tr \<Rightarrow> Calculated info tr)"
proof -
  from print_network_info_succeeds [OF v] obtain info where info: "print_network_info n = Inr info"
    by blast
  have val: "is_ValueError e" if "second_netmask n q = Inl e" for e
  proof (cases "q < 0 \<or> 32 < q")
    case True
    with second_netmask_cases [OF v v4, of q] that show ?thesis by simp
  next
    case False
    then consider "prefixlen n < q \<and> q \<le> 32" | "0 \<le> q \<and> q < prefixlen n" | "q = prefixlen n"
      by linarith
    then show ?thesis
      using second_netmask_cases [OF v v4, of q] that by cases auto
  qed
  have "after_parsing P a n addr (Some t) =
       (case second_netmask n q of
          Inl e \<Rightarrow> InvalidSecondNetmask info e
        | Inr tr \<Rightarrow> Calculated info tr)"
  proof (cases "second_netmask n q")
    case (Inl e)
    with val [OF Inl] a t info show ?thesis by (auto simp: after_parsing_def)
  next
    case (Inr tr)
    with a t info show ?thesis by (auto simp: after_parsing_def)
  qed
  with info show ?thesis by blast
qed

text \<open>
  Claim C6, as amended. \<open>subnets\<close> refuses, with a \<open>ValueError\<close>, a new prefix that is
  shorter than the current one or beyond the width, unless the network is a single
  address; \<open>supernet\<close> refuses a new prefix that is longer than the current one, unless
  the current prefix is 0. The network's own prefix is not refused: \<open>subnets\<close> yields
  the network itself, \<open>supernet\<close> returns it, and \<open>main\<close> does nothing, silently. In
  \<open>main\<close>, for an IPv4 network, a second netmask outside \<open>0..32\<close> is refused and
  reported as \<open>Invalid second netmask\<close>, and every one within \<open>0..32\<close> is accepted.
\<close>

theorem prefix_transition_errors:
  assumes v: "valid_network n"
  shows "(prefixlen n \<noteq> max_prefixlen (version (network_address n)) \<longrightarrow>
            q < prefixlen n \<or> max_prefixlen (version (network_address n)) < q \<longrightarrow>
            (\<exists>msg. subnets n q = Inl (ValueError msg))) \<and>
         (prefixlen n \<noteq> 0 \<longrightarrow> prefixlen n < q \<longrightarrow>
            (\<exists>msg. supernet n q = Inl (ValueError msg))) \<and>
         subnets n (prefixlen n) = Inr [n] \<and>
         supernet n (prefixlen n) = Inr n \<and>
         (version (network_address n) = IPv4 \<longrightarrow>
            second_netmask n (prefixlen n) = Inr NoTransition \<and>
            (q < 0 \<or> 32 < q \<longrightarrow>
               second_netmask n q = Inl (ValueError ''Prefix must be between 0 and 32.'')) \<and>
            (0 \<le> q \<and> q \<le> 32 \<longrightarrow> (\<exists>tr. second_netmask n q = Inr tr)) \<and>
            (\<forall>P a addr t.
               \<not> print_class a \<and> (split_opt a = None \<or> split_opt a = Some []) \<and>
               t \<noteq> [] \<and> int_of_text P t = Inr q \<longrightarrow>
               (\<exists>info. print_network_info n = Inr info \<and>
                  after_parsing P a n addr (Some t) =
                    (case second_netmask n q of
                       Inl e \<Rightarrow> InvalidSecondNetmask info e
                     | Inr tr \<Rightarrow> Calculated info tr))))"
proof -
  have c1: "prefixlen n \<noteq> max_prefixlen (version (network_address n)) \<longrightarrow>
            q < prefixlen n \<or> max_prefixlen (version (network_address n)) < q \<longrightarrow>
            (\<exists>msg. subnets n q = Inl (ValueError msg))"
    using subnets_refused [of n q] by blast
  have c2: "prefixlen n \<noteq> 0 \<longrightarrow> prefixlen n < q \<longrightarrow>
            (\<exists>msg. supernet n q = Inl (ValueError msg))"
    using supernet_refused [of n q] by blast
  note c3 = subnets_own_prefix [OF v] and c4 = supernet_own_prefix [OF v]
  have c5: "second_netmask n (prefixlen n) = Inr NoTransition"
      "q < 0 \<or> 32 < q \<longrightarrow>
         second_netmask n q = Inl (ValueError ''Prefix must be between 0 and 32.'')"
      "0 \<le> q \<and> q \<le> 32 \<longrightarrow> (\<exists>tr. second_netmask n q = Inr tr)"
    if v4: "version (network_address n) = IPv4"
  proof -
    note T = second_netmask_cases [OF v v4]
    show "second_netmask n (prefixlen n) = Inr NoTransition" using T [of "prefixlen n"] by simp
    show "q < 0 \<or> 32 < q \<longrightarrow>
         second_netmask n q = Inl (ValueError ''Prefix must be between 0 and 32.'')"
      using T [of q] by blast
    show "0 \<le> q \<and> q \<le> 32 \<longrightarrow> (\<exists>tr. second_netmask n q = Inr tr)"
    proof
      assume "0 \<le> q \<and> q \<le> 32"
      then consider "prefixlen n < q \<and> q \<le> 32" | "0 \<le> q \<and> q < prefixlen n" | "q = prefixlen n"
        by linarith
      then show "\<exists>tr. second_netmask n q = Inr tr"
        using T [of q] by cases auto
    qed
  qed
  have c6: "\<forall>P a addr t.
               \<not> print_class a \<and> (split_opt a = None \<or> split_opt a = Some []) \<and>
               t \<noteq> [] \<and> int_of_text P t = Inr q \<longrightarrow>
               (\<exists>info. print_network_info n = Inr info \<and>
                  after_parsing P a n addr (Some t) =
                    (case second_netmask n q of
                       Inl e \<Rightarrow> InvalidSecondNetmask info e
                     | Inr tr \<Rightarrow> Calculated info tr))"
    if v4: "version (network_address n) = IPv4"
    using second_netmask_reported [OF v v4] by blast
  from c1 c2 c3 c4 c5 c6 show ?thesis by blast
qed

theorem prefix_transition_errors_witness:
  "valid_network \<lparr>network_address = \<lparr>version = IPv4, ip = 3221225984\<rparr>, prefixlen = 24\<rparr> \<and>
   (\<exists>msg. subnets \<lparr>network_address = \<lparr>version = IPv4, ip = 3221225984\<rparr>, prefixlen = 24\<rparr> 16
      = Inl (ValueError msg)) \<and>
   (\<exists>msg. subnets \<lparr>network_address = \<lparr>version = IPv4, ip = 3221225984\<rparr>, prefixlen = 24\<rparr> 33
      = Inl (ValueError msg)) \<and>
   (\<exists>msg. supernet \<lparr>network_address = \<lparr>version = IPv4, ip = 3221225984\<rparr>, prefixlen = 24\<rparr> 26
      = Inl (ValueError msg)) \<and>
   second_netmask \<lparr>network_address = \<lparr>version = IPv4, ip = 3221225984\<rparr>, prefixlen = 24\<rparr> 33
     = Inl (ValueError ''Prefix must be between 0 and 32.'') \<and>
   (\<exists>tr. second_netmask \<lparr>network_address = \<lparr>version = IPv4, ip = 3221225984\<rparr>, prefixlen = 24\<rparr> 26
      = Inr tr)"
proof -
  let ?n = "\<lparr>network_address = \<lparr>version = IPv4, ip = 3221225984\<rparr>, prefixlen = 24\<rparr>"
  have v: "valid_network ?n" by code_simp
  from prefix_transition_errors [OF v, of 16] prefix_transition_errors [OF v, of 33]
    prefix_transition_errors [OF v, of 26] v
  show ?thesis by simp
qed

text \<open>
  Claim C6 as stated fails at the network's own prefix: for 192.0.2.0/24 and a second
  netmask of 24 \<open>main\<close> does nothing, and neither \<open>subnets\<close> nor \<open>supernet\<close> of the
  library refuses that prefix. It also fails for a single address, whose \<open>subnets\<close>
  at a shorter prefix is the address itself, and for prefix 0, whose \<open>supernet\<close> at a
  longer prefix is the network itself.
\<close>

theorem same_prefix_counterexample:
  "second_netmask \<lparr>network_address = \<lparr>version = IPv4, ip = 3221225984\<rparr>, prefixlen = 24\<rparr> 24
     = Inr NoTransition \<and>
   subnets \<lparr>network_address = \<lparr>version = IPv4, ip = 3221225984\<rparr>, prefixlen = 24\<rparr> 24
     = Inr [\<lparr>network_address = \<lparr>version = IPv4, ip = 3221225984\<rparr>, prefixlen = 24\<rparr>] \<and>
   supernet \<lparr>network_address = \<lparr>version = IPv4, ip = 3221225984\<rparr>, prefixlen = 24\<rparr> 24
     = Inr \<lparr>network_address = \<lparr>version = IPv4, ip = 3221225984\<rparr>, prefixlen = 24\<rparr> \<and>
   subnets \<lparr>network_address = \<lparr>version = IPv4, ip = 3221225985\<rparr>, prefixlen = 32\<rparr> 16
     = Inr [\<lparr>network_address = \<lparr>version = IPv4, ip = 3221225985\<rparr>, prefixlen = 32\<rparr>] \<and>
   supernet \<lparr>network_address = \<lparr>version = IPv4, ip = 0\<rparr>, prefixlen = 0\<rparr> 8
     = Inr \<lparr>network_address = \<lparr>version = IPv4, ip = 0\<rparr>, prefixlen = 0\<rparr>"
  by code_simp

section \<open>The IPv6 path of \<open>main\<close>\<close>

lemma ipv6_network_str_params:
  "params b = params a \<Longrightarrow> ipv6_network_str b = ipv6_network_str a"
  by (simp add: ipv6_network_str_def Let_def cong: if_cong)

lemma ipv6_path_params:
  "params b = params a \<Longrightarrow> ipv6_path P b = ipv6_path P a"
  by (simp add: ipv6_path_def ipv6_network_str_params [of b a] cong: sum.case_cong)

lemma except_address_not_split: "except_address e \<noteq> SplitDone r"
  by (simp add: except_address_def)

lemma ipv6_path_not_split: "ipv6_path P a \<noteq> SplitDone r"
  by (simp add: ipv6_path_def except_address_not_split split: sum.splits)

lemma main_ipv6:
  assumes "\<not> version_flag a" "params a \<noteq> []"
    and "\<not> (length (params a) > 1 \<and> params a ! 1 = ''-'')"
    and "ip_address P (before_slash (params a ! 0)) = Inr addr" "version addr = IPv6"
  shows "main P a = ipv6_path P a"
proof -
  have "main P a = standard_mode P a"
    by (simp only: main_def if_not_P [OF assms(1)] if_not_P [OF assms(2)] if_not_P [OF assms(3)])
  also have "\<dots> = ipv6_path P a"
    by (simp add: standard_mode_def assms(4) assms(5))
  finally show ?thesis .
qed

text \<open>
  Claim C10, as amended. When the first parameter is an IPv6 address (outside the
  version switch and the range mode), \<open>main\<close> takes the IPv6 path and ends there: after
  printing the address, netmask and prefix information when the network text parses,
  and with the report of \<open>except_address\<close> (\<open>Invalid address or netmask\<close>) when it
  does not. Either way it never reaches \<open>handle_split_network\<close>, and its outcome is
  the same whatever sizes \<open>-s\<close> carries.
\<close>

theorem ipv6_before_split:
  assumes "\<not> version_flag a" "params a \<noteq> []"
    and "\<not> (length (params a) > 1 \<and> params a ! 1 = ''-'')"
    and "ip_address P (before_slash (params a ! 0)) = Inr addr" "version addr = IPv6"
  shows "(case ip_network_loose P (ipv6_network_str a) of
            Inr net \<Rightarrow> main P a = IPv6Calculation net addr
          | Inl e \<Rightarrow> main P a = except_address e) \<and>
         (\<forall>r. main P a \<noteq> SplitDone r) \<and>
         (\<forall>sizes. main P (a\<lparr>split_opt := sizes\<rparr>) = main P a)"
proof -
  have m: "main P a = ipv6_path P a"
    using assms by (rule main_ipv6)
  have s: "main P (a\<lparr>split_opt := sizes\<rparr>) = main P a" for sizes
  proof -
    let ?b = "a\<lparr>split_opt := sizes\<rparr>"
    have p: "params ?b = params a" and f: "version_flag ?b = version_flag a" by simp_all
    have "main P ?b = ipv6_path P ?b"
      using assms by (intro main_ipv6 [where addr = addr]) simp_all
    also have "\<dots> = ipv6_path P a" by (rule ipv6_path_params [OF p])
    finally show ?thesis by (simp only: m)
  qed
  have c: "(case ip_network_loose P (ipv6_network_str a) of
            Inr net \<Rightarrow> main P a = IPv6Calculation net addr
          | Inl e \<Rightarrow> main P a = except_address e)"
    by (simp add: m ipv6_path_def assms(4) split: sum.splits)
  have n: "\<forall>r. main P a \<noteq> SplitDone r"
    by (simp only: m ipv6_path_not_split not_False_eq_True simp_thms)
  from c n s show ?thesis by blast
qed

theorem ipv6_before_split_witness:
  "main \<lparr>ip_address = (\<lambda>t. if t = ''2001:db8::1''
                          then Inr \<lparr>version = IPv6, ip = 42540766411282592856903984951653826561\<rparr>
                          else Inl (AddressValueError 0)),
         ip_network_loose = (\<lambda>t. if t = ''2001:db8::1/64''
                          then Inr \<lparr>network_address =
                                      \<lparr>version = IPv6, ip = 42540766411282592856903984951653826560\<rparr>,
                                    prefixlen = 64\<rparr>
                          else Inl (AddressValueError 0)),
         int_of_text = (\<lambda>t. Inl (ValueError ''invalid literal for int()'')),
         ceil_log2_double = real_ceil_log2\<rparr>
     \<lparr>params = [''2001:db8::1''], version_flag = False, print_class = False,
      split_opt = Some [50, 20]\<rparr>
   = IPv6Calculation
       \<lparr>network_address = \<lparr>version = IPv6, ip = 42540766411282592856903984951653826560\<rparr>,
        prefixlen = 64\<rparr>
       \<lparr>version = IPv6, ip = 42540766411282592856903984951653826561\<rparr>"
proof -
  let ?P = "\<lparr>ip_address = (\<lambda>t. if t = ''2001:db8::1''
                          then Inr \<lparr>version = IPv6, ip = 42540766411282592856903984951653826561\<rparr>
                          else Inl (AddressValueError 0)),
         ip_network_loose = (\<lambda>t. if t = ''2001:db8::1/64''
                          then Inr \<lparr>network_address =
                                      \<lparr>version = IPv6, ip = 42540766411282592856903984951653826560\<rparr>,
                                    prefixlen = 64\<rparr>
                          else Inl (AddressValueError 0)),
         int_of_text = (\<lambda>t. Inl (ValueError ''invalid literal for int()'')),
         ceil_log2_double = real_ceil_log2\<rparr>"
  let ?a = "\<lparr>params = [''2001:db8::1''], version_flag = False, print_class = False,
      split_opt = Some [50, 20]\<rparr>"
  let ?addr = "\<lparr>version = IPv6, ip = 42540766411282592856903984951653826561\<rparr>"
  have h1: "\<not> version_flag ?a" and h2: "params ?a \<noteq> []"
    and h3: "\<not> (length (params ?a) > 1 \<and> params ?a ! 1 = ''-'')" by simp_all
  have h4: "ip_address ?P (before_slash (params ?a ! 0)) = Inr ?addr"
    by (simp add: before_slash_def)
  have h5: "version ?addr = IPv6" by simp
  have n: "ipv6_network_str ?a = ''2001:db8::1/64''"
    by (simp add: ipv6_network_str_def)
  from ipv6_before_split [OF h1 h2 h3 h4 h5] show ?thesis
    by (simp add: n)
qed

text \<open>
  Claim C10 as stated fails for an IPv6 address with an invalid prefix: for
  \<open>2001:db8::1 129\<close> the network text does not parse, and \<open>main\<close> ends with the
  invalid-address report without printing the information.
\<close>

theorem ipv6_invalid_prefix_counterexample:
  "main \<lparr>ip_address = (\<lambda>t. if t = ''2001:db8::1''
                          then Inr \<lparr>version = IPv6, ip = 42540766411282592856903984951653826561\<rparr>
                          else Inl (AddressValueError 0)),
         ip_network_loose = (\<lambda>t. Inl (ValueError
                          ''does not appear to be an IPv4 or IPv6 network'')),
         int_of_text = (\<lambda>t. Inl (ValueError ''invalid literal for int()'')),
         ceil_log2_double = real_ceil_log2\<rparr>
     \<lparr>params = [''2001:db8::1'', ''129''], version_flag = False, print_class = False,
      split_opt = Some [50, 20]\<rparr>
   = InvalidAddress (ValueError ''does not appear to be an IPv4 or IPv6 network'')"
  by (simp add: main_def standard_mode_def ipv6_path_def before_slash_def except_address_def)

section \<open>Range summarization\<close>

lemma not_and_pred_even:
  fixes y :: int
  shows "NOT (2 * y) AND (2 * y - 1) = 1 + 2 * (NOT y AND (y - 1))"
proof -
  have d: "(2 * y - 1) div 2 = y - 1" by simp
  have "NOT (2 * y) AND (2 * y - 1)
      = of_bool (odd (NOT (2 * y)) \<and> odd (2 * y - 1))
        + 2 * ((NOT (2 * y) div 2) AND ((2 * y - 1) div 2))"
    by (rule and_rec)
  then show ?thesis by (simp only: d not_int_div_2) simp
qed

lemma not_and_pred_odd:
  fixes y :: int
  shows "NOT (2 * y + 1) AND (2 * y + 1 - 1) = 0"
proof -
  have "NOT (2 * y + 1) AND (2 * y)
      = of_bool (odd (NOT (2 * y + 1)) \<and> odd (2 * y))
        + 2 * ((NOT (2 * y + 1) div 2) AND ((2 * y) div 2))"
    by (rule and_rec)
  then show ?thesis by (simp add: not_int_div_2)
qed

lemma trailing_zero_mask:
  fixes x :: int
  assumes "0 < x"
  shows "\<exists>t. NOT x AND (x - 1) = mask t \<and> 2 ^ t dvd x \<and> \<not> 2 ^ Suc t dvd x"
  using assms
proof (induction "nat x" arbitrary: x rule: less_induct)
  case less
  show ?case
  proof (cases "even x")
    case False
    then obtain y where y: "x = 2 * y + 1" by (auto elim: oddE)
    have "NOT x AND (x - 1) = mask 0" unfolding y by (subst not_and_pred_odd) simp
    moreover have "\<not> 2 ^ Suc 0 dvd x" using False by simp
    ultimately show ?thesis by (intro exI [of _ 0]) simp
  next
    case True
    then obtain y where y: "x = 2 * y" by (auto elim: evenE)
    with less.prems have y0: "0 < y" by simp
    then have "nat y < nat x" using y by simp
    from less.hyps [OF this y0] obtain t where
      t: "NOT y AND (y - 1) = mask t" "2 ^ t dvd y" "\<not> 2 ^ Suc t dvd y" by blast
    have "NOT x AND (x - 1) = mask (Suc t)"
      unfolding y not_and_pred_even t(1) by (simp add: mask_eq_exp_minus_1)
    moreover have "2 ^ Suc t dvd x" using t(2) y by simp
    moreover have "\<not> 2 ^ Suc (Suc t) dvd x"
    proof -
      have "(2::int) ^ Suc (Suc t) dvd 2 * y \<longleftrightarrow> 2 ^ Suc t dvd y"
        by (simp only: power_Suc [of 2 "Suc t"] dvd_mult_cancel_left) simp
      with t(3) y show ?thesis by simp
    qed
    ultimately show ?thesis by blast
  qed
qed

lemma bit_length_mask: "bit_length (mask t) = int t"
proof (cases t)
  case 0
  then show ?thesis by (simp add: bit_length_def)
next
  case (Suc k)
  have k1: "(1::int) \<le> 2 ^ k" by simp
  have mt: "(mask t :: int) = 2 * 2 ^ k - 1" by (simp add: Suc mask_eq_exp_minus_1)
  have pos: "(0::int) < mask t" using k1 mt by linarith
  have "bitlen (mask t :: int) = int t"
  proof (rule antisym)
    have "(mask t :: int) < 2 ^ t" by (simp add: mask_eq_exp_minus_1)
    then show "bitlen (mask t :: int) \<le> int t"
      using bitlen_le_iff_power [of "mask t" t] by simp
  next
    have "(2::int) ^ k \<le> mask t"
      using k1 mt by linarith
    moreover have "nat (int t) - 1 = k" by (simp add: Suc)
    ultimately show "int t \<le> bitlen (mask t :: int)"
      using bitlen_ge_iff_power [of "int t" "mask t"] by simp
  qed
  with pos show ?thesis by (simp add: bit_length_def)
qed

lemma count_righthand_zero_bits_char:
  assumes "0 \<le> x" "0 \<le> M"
  defines "c \<equiv> count_righthand_zero_bits x M"
  shows "0 \<le> c \<and> c \<le> M \<and> 2 ^ nat c dvd x \<and>
         (\<forall>j. int j \<le> M \<longrightarrow> 2 ^ j dvd x \<longrightarrow> int j \<le> c)"
proof (cases "x = 0")
  case True
  then have c: "c = M" by (simp add: c_def count_righthand_zero_bits_def)
  show ?thesis using assms(2) True by (simp add: c)
next
  case False
  with assms(1) have "0 < x" by simp
  from trailing_zero_mask [OF this] obtain t where
    t: "NOT x AND (x - 1) = mask t" "2 ^ t dvd x" "\<not> 2 ^ Suc t dvd x" by blast
  have c: "c = min M (int t)"
    using False by (simp add: c_def count_righthand_zero_bits_def t(1) bit_length_mask)
  have c0: "0 \<le> c" "c \<le> M" using assms(2) by (simp_all add: c)
  have "nat c \<le> t" by (simp add: c)
  then have "(2::int) ^ nat c dvd 2 ^ t" by (rule le_imp_power_dvd)
  then have dv: "2 ^ nat c dvd x" using t(2) by (rule dvd_trans)
  have mx: "int j \<le> c" if j: "int j \<le> M" "2 ^ j dvd x" for j
  proof -
    have "j \<le> t"
    proof (rule ccontr)
      assume "\<not> j \<le> t"
      then have "Suc t \<le> j" by simp
      then have "(2::int) ^ Suc t dvd 2 ^ j" by (rule le_imp_power_dvd)
      then have "2 ^ Suc t dvd x" using j(2) by (rule dvd_trans)
      with t(3) show False by contradiction
    qed
    with j(1) show ?thesis by (simp add: c)
  qed
  from c0 dv mx show ?thesis by blast
qed

lemma bit_length_bounds:
  assumes "1 \<le> r"
  shows "0 \<le> bit_length r - 1" "2 ^ nat (bit_length r - 1) \<le> r" "r < 2 ^ nat (bit_length r)"
proof -
  have r: "0 < r" "\<bar>r\<bar> = r" using assms by simp_all
  from bitlen_bounds [OF r(1)] show "2 ^ nat (bit_length r - 1) \<le> r" "r < 2 ^ nat (bit_length r)"
    by (simp_all add: bit_length_def r(2))
  show "0 \<le> bit_length r - 1"
    using bit_length_pos [OF r(1)] by simp
qed

lemma nbits_of_char:
  fixes v :: ip_version
  assumes "0 \<le> c" "c \<le> e"
  defines "k \<equiv> nbits_of v c e"
  shows "0 \<le> k \<and> k \<le> max_prefixlen v \<and> 2 ^ nat k dvd c \<and> c + 2 ^ nat k \<le> e + 1 \<and>
         (\<forall>j. int j \<le> max_prefixlen v \<longrightarrow> 2 ^ j dvd c \<longrightarrow> c + 2 ^ j \<le> e + 1 \<longrightarrow> int j \<le> k)"
proof -
  let ?M = "max_prefixlen v"
  let ?z = "count_righthand_zero_bits c ?M" and ?b = "bit_length (e - c + 1) - 1"
  have M: "0 \<le> ?M" by (cases v) simp_all
  from count_righthand_zero_bits_char [OF assms(1) M]
  have z: "0 \<le> ?z" "?z \<le> ?M" "2 ^ nat ?z dvd c"
    "\<And>j. int j \<le> ?M \<Longrightarrow> 2 ^ j dvd c \<Longrightarrow> int j \<le> ?z" by blast+
  have r: "1 \<le> e - c + 1" using assms(2) by simp
  note b = bit_length_bounds [OF r]
  have k: "k = min ?z ?b" by (simp add: k_def nbits_of_def)
  have k0: "0 \<le> k" using z(1) b(1) by (simp add: k)
  have kM: "k \<le> ?M" using z(2) by (simp add: k)
  have "nat k \<le> nat ?z" by (simp add: k)
  then have "(2::int) ^ nat k dvd 2 ^ nat ?z" by (rule le_imp_power_dvd)
  then have dv: "2 ^ nat k dvd c" using z(3) by (rule dvd_trans)
  have "nat k \<le> nat ?b" by (simp add: k)
  then have "(2::int) ^ nat k \<le> 2 ^ nat ?b" by (intro power_increasing) simp_all
  with b(2) have fit: "c + 2 ^ nat k \<le> e + 1" by linarith
  have mx: "int j \<le> k" if j: "int j \<le> ?M" "2 ^ j dvd c" "c + 2 ^ j \<le> e + 1" for j
  proof -
    have "int j \<le> ?z" using j(1,2) by (rule z(4))
    moreover have "int j \<le> ?b"
    proof (rule ccontr)
      assume "\<not> int j \<le> ?b"
      then have "nat (bit_length (e - c + 1)) \<le> j" by linarith
      then have "(2::int) ^ nat (bit_length (e - c + 1)) \<le> 2 ^ j"
        by (intro power_increasing) simp_all
      with b(3) j(3) show False by linarith
    qed
    ultimately show ?thesis by (simp add: k)
  qed
  from k0 kM dv fit mx show ?thesis by blast
qed

lemma multiples_apart:
  fixes a b m :: int
  assumes "0 < m" "m dvd a" "m dvd b" "a < b + m"
  shows "a \<le> b"
proof (rule ccontr)
  assume "\<not> a \<le> b"
  then have "0 < a - b" by simp
  moreover have "m dvd a - b" using assms(2,3) by (rule dvd_diff)
  ultimately have "m \<le> a - b" by (rule zdvd_imp_le [rotated])
  with assms(4) show False by simp
qed

lemma aligned_blocks_nested:
  fixes c d :: int
  assumes c: "2 ^ k dvd c" and d: "2 ^ j dvd d" and kj: "k \<le> j"
    and meet: "{c .. c + 2 ^ k - 1} \<inter> {d .. d + 2 ^ j - 1} \<noteq> {}"
  shows "d \<le> c \<and> c + 2 ^ k \<le> d + 2 ^ j"
proof -
  from meet obtain x where "x \<in> {c .. c + 2 ^ k - 1} \<inter> {d .. d + 2 ^ j - 1}"
    by blast
  then have x: "c \<le> x" "x \<le> c + 2 ^ k - 1" "d \<le> x" "x \<le> d + 2 ^ j - 1"
    by simp_all
  have kj2: "(2::int) ^ k dvd 2 ^ j" using kj by (rule le_imp_power_dvd)
  then have d': "2 ^ k dvd d" using d by (rule dvd_trans)
  have top: "2 ^ k dvd d + 2 ^ j" using d' kj2 by (rule dvd_add)
  have pos: "(0::int) < 2 ^ k" by simp
  have "d < c + 2 ^ k" using x by linarith
  with pos d' c have "d \<le> c" by (rule multiples_apart)
  moreover have "c < d + 2 ^ j" using x by linarith
  then have lt: "c + 2 ^ k < (d + 2 ^ j) + 2 ^ k" by simp
  have ck: "2 ^ k dvd c + 2 ^ k" using c by simp
  from pos ck top lt have "c + 2 ^ k \<le> d + 2 ^ j"
    by (rule multiples_apart)
  ultimately show ?thesis by simp
qed

lemma cidr_block:
  assumes "cidr v D"
  shows "addresses D = {ip (network_address D) .. ip (network_address D) + 2 ^ host_bits D - 1}"
    and "2 ^ host_bits D dvd ip (network_address D)"
    and "int (host_bits D) \<le> max_prefixlen v"
    and "ip (broadcast_address D) = ip (network_address D) + 2 ^ host_bits D - 1"
proof -
  have v: "valid_network D" and ver: "version (network_address D) = v"
    using assms by (simp_all add: cidr_def)
  show "ip (broadcast_address D) = ip (network_address D) + 2 ^ host_bits D - 1"
    by (rule broadcast_eq [OF v])
  then show "addresses D = {ip (network_address D) .. ip (network_address D) + 2 ^ host_bits D - 1}"
    by (simp add: addresses_def)
  show "2 ^ host_bits D dvd ip (network_address D)"
    using v by (simp add: valid_network_iff mod_eq_0_iff_dvd)
  show "int (host_bits D) \<le> max_prefixlen v"
    using v ver by (simp add: valid_network_iff host_bits_def)
qed

lemma summarize_step:
  fixes v :: ip_version
  assumes "0 \<le> c" "c \<le> e" "e \<le> ALL_ONES v"
  defines "k \<equiv> nat (nbits_of v c e)"
  defines "net \<equiv> \<lparr>network_address = \<lparr>version = v, ip = c\<rparr>,
                     prefixlen = max_prefixlen v - nbits_of v c e\<rparr>"
  shows "network_of_int v c (max_prefixlen v - nbits_of v c e) = Inr net"
    and "cidr v net" and "host_bits net = k"
proof -
  from nbits_of_char [OF assms(1,2), of v]
  have n: "0 \<le> nbits_of v c e" "nbits_of v c e \<le> max_prefixlen v" "2 ^ k dvd c"
    by (simp_all add: k_def)
  have a: "c \<le> ALL_ONES v" using assms(2,3) by simp
  have p: "0 \<le> max_prefixlen v - nbits_of v c e" "max_prefixlen v - nbits_of v c e \<le> max_prefixlen v"
    using n by simp_all
  have al: "c mod 2 ^ nat (max_prefixlen v - (max_prefixlen v - nbits_of v c e)) = 0"
    using n(3) by (simp add: k_def mod_eq_0_iff_dvd)
  show "network_of_int v c (max_prefixlen v - nbits_of v c e) = Inr net"
    unfolding net_def using assms(1) a p al by (rule network_of_int_aligned)
  have "valid_network net"
    unfolding net_def using assms(1) a p al by (rule network_of_int_valid)
  then show "cidr v net" by (simp add: cidr_def net_def)
  show "host_bits net = k" by (simp add: host_bits_def net_def k_def)
qed

lemma greedy_block_maximal:
  fixes v :: ip_version
  assumes net: "cidr v net" "ip (network_address net) = c" "host_bits net = k"
    and mx: "\<And>j. int j \<le> max_prefixlen v \<Longrightarrow> 2 ^ j dvd c \<Longrightarrow> c + 2 ^ j \<le> e + 1 \<Longrightarrow> j \<le> k"
    and inv: "\<And>D. cidr v D \<Longrightarrow> addresses D \<subseteq> {s .. e} \<Longrightarrow> ip (network_address D) < c
                 \<Longrightarrow> ip (broadcast_address D) < c"
  shows "maximal_in v s e net"
  unfolding maximal_in_def
proof (intro allI impI)
  fix D
  assume D: "cidr v D" and Dsub: "addresses D \<subseteq> {s .. e}"
    and meet: "addresses D \<inter> addresses net \<noteq> {}"
  let ?d = "ip (network_address D)" and ?j = "host_bits D"
  note Db = cidr_block [OF D]
  note Nb = cidr_block [OF net(1), unfolded net(2,3)]
  have pos: "(0::int) < 2 ^ k" and Dpos: "(0::int) < 2 ^ ?j" by simp_all
  have "?d + 2 ^ ?j - 1 \<in> addresses D" using Dpos by (simp add: Db(1))
  with Dsub have "?d + 2 ^ ?j - 1 \<in> {s .. e}" by (rule subsetD)
  then have De: "?d + 2 ^ ?j - 1 \<le> e" by simp
  show "addresses D \<subseteq> addresses net"
  proof (cases "?j \<le> k")
    case True
    from meet have "{?d .. ?d + 2 ^ ?j - 1} \<inter> {c .. c + 2 ^ k - 1} \<noteq> {}"
      unfolding Db(1) Nb(1) .
    from aligned_blocks_nested [OF Db(2) Nb(2) True this]
    have "c \<le> ?d" "?d + 2 ^ ?j \<le> c + 2 ^ k" by simp_all
    then have "{?d .. ?d + 2 ^ ?j - 1} \<subseteq> {c .. c + 2 ^ k - 1}"
      by (intro atLeastatMost_subset_iff [THEN iffD2]) simp
    then show ?thesis unfolding Db(1) Nb(1) .
  next
    case False
    then have kj: "k \<le> ?j" by simp
    from meet have "{c .. c + 2 ^ k - 1} \<inter> {?d .. ?d + 2 ^ ?j - 1} \<noteq> {}"
      unfolding Db(1) Nb(1) by blast
    from aligned_blocks_nested [OF Nb(2) Db(2) kj this]
    have nest: "?d \<le> c" "c + 2 ^ k \<le> ?d + 2 ^ ?j" by simp_all
    have "?d = c"
    proof (rule ccontr)
      assume "?d \<noteq> c"
      with nest(1) have "?d < c" by simp
      from inv [OF D Dsub this] have "?d + 2 ^ ?j - 1 < c" unfolding Db(4) .
      with nest(2) pos show False by linarith
    qed
    with Db(2) De have "2 ^ ?j dvd c" "c + 2 ^ ?j \<le> e + 1" by simp_all
    from mx [OF Db(3) this] have "?j \<le> k" .
    with False show ?thesis by contradiction
  qed
qed

lemma summarize_loop_unfold:
  fixes v :: ip_version
  assumes "0 \<le> c" "c \<le> e" "e \<le> ALL_ONES v"
  defines "k \<equiv> nat (nbits_of v c e)"
  defines "net \<equiv> \<lparr>network_address = \<lparr>version = v, ip = c\<rparr>,
                     prefixlen = max_prefixlen v - nbits_of v c e\<rparr>"
  shows "summarize_loop v c e =
      (if c + 2 ^ k - 1 = ALL_ONES v then Inr [net]
       else (case summarize_loop v (c + 2 ^ k) e of
               Inl x \<Rightarrow> Inl x
             | Inr nets \<Rightarrow> Inr (net # nets)))"
proof -
  have st: "network_of_int v c (max_prefixlen v - nbits_of v c e) = Inr net"
    unfolding net_def by (rule summarize_step(1) [OF assms(1,2,3)])
  have pb: "c + push_bit (nat (nbits_of v c e)) 1 = c + 2 ^ k"
    by (simp add: push_bit_eq_mult k_def)
  show ?thesis
    by (subst summarize_loop.simps) (simp only: assms(2) if_True Let_def st sum.case pb)
qed

lemma summarize_loop_done: "e < c \<Longrightarrow> summarize_loop v c e = Inr []"
  by (subst summarize_loop.simps) simp

lemma summarize_loop_correct:
  fixes v :: ip_version
  assumes "0 \<le> s" "s \<le> c" "c \<le> e" "e \<le> ALL_ONES v"
    and inv: "\<And>D. cidr v D \<Longrightarrow> addresses D \<subseteq> {s .. e} \<Longrightarrow> ip (network_address D) < c
                 \<Longrightarrow> ip (broadcast_address D) < c"
  shows "\<exists>nets. summarize_loop v c e = Inr nets \<and> nets \<noteq> [] \<and> tiles c nets e \<and>
           (\<forall>n\<in>set nets. cidr v n \<and> maximal_in v s e n)"
  using assms
proof (induction "nat (e - c)" arbitrary: c rule: less_induct)
  case less
  define k where "k = nat (nbits_of v c e)"
  define net where "net = \<lparr>network_address = \<lparr>version = v, ip = c\<rparr>,
                           prefixlen = max_prefixlen v - nbits_of v c e\<rparr>"
  have c0: "0 \<le> c" using less.prems(1,2) by simp
  note step = summarize_step [OF c0 less.prems(3,4), folded k_def net_def]
  from nbits_of_char [OF c0 less.prems(3), of v]
  have nb: "0 \<le> nbits_of v c e" "c + 2 ^ k \<le> e + 1"
    and mx': "\<And>j. int j \<le> max_prefixlen v \<Longrightarrow> 2 ^ j dvd c \<Longrightarrow> c + 2 ^ j \<le> e + 1
                \<Longrightarrow> int j \<le> nbits_of v c e"
    by (simp_all add: k_def)
  have mx: "j \<le> k" if "int j \<le> max_prefixlen v" "2 ^ j dvd c" "c + 2 ^ j \<le> e + 1" for j
    using mx' [OF that] nb(1) by (simp add: k_def)
  have base: "ip (network_address net) = c" by (simp add: net_def)
  note blk = cidr_block [OF step(2), unfolded step(3) base]
  have pos: "(0::int) < 2 ^ k" by simp
  have maxi: "maximal_in v s e net"
    using step(2) base step(3) mx less.prems(5) by (rule greedy_block_maximal)
  note unfold = summarize_loop_unfold [OF c0 less.prems(3,4), folded k_def net_def]
  show ?case
  proof (cases "c + 2 ^ k \<le> e")
    case False
    with nb(2) have e: "e = c + 2 ^ k - 1" by simp
    have "e < c + 2 ^ k" using False by simp
    then have "summarize_loop v (c + 2 ^ k) e = Inr []" by (rule summarize_loop_done)
    then have "summarize_loop v c e = Inr [net]"
      by (simp add: unfold)
    moreover have "tiles c [net] e" by (simp add: base blk(4) e)
    ultimately show ?thesis using step(2) maxi by simp
  next
    case True
    then have ne: "c + 2 ^ k - 1 \<noteq> ALL_ONES v" using less.prems(4) by simp
    have m: "nat (e - (c + 2 ^ k)) < nat (e - c)" using True pos by linarith
    have s': "s \<le> c + 2 ^ k" using less.prems(2) pos by linarith
    have inv': "ip (broadcast_address D) < c + 2 ^ k"
      if D: "cidr v D" and Dsub: "addresses D \<subseteq> {s .. e}"
        and lt: "ip (network_address D) < c + 2 ^ k" for D
    proof (cases "ip (network_address D) < c")
      case True
      from less.prems(5) [OF D Dsub True] pos show ?thesis by linarith
    next
      case False
      note Db = cidr_block [OF D]
      have Dpos: "(0::int) < 2 ^ host_bits D" by simp
      have "ip (network_address D) \<in> addresses D" unfolding Db(1) using Dpos by simp
      moreover have "ip (network_address D) \<in> addresses net"
        unfolding blk(1) using False lt by simp
      ultimately have "addresses D \<inter> addresses net \<noteq> {}" by blast
      with maxi D Dsub have "addresses D \<subseteq> addresses net"
        unfolding maximal_in_def by blast
      moreover have "ip (broadcast_address D) \<in> addresses D"
        unfolding Db(1) Db(4) using Dpos by simp
      ultimately have "ip (broadcast_address D) \<in> addresses net" by (rule subsetD)
      then show ?thesis unfolding blk(1) by simp
    qed
    from less.hyps [OF m less.prems(1) s' True less.prems(4) inv']
    obtain nets where nets: "summarize_loop v (c + 2 ^ k) e = Inr nets" "nets \<noteq> []"
      "tiles (c + 2 ^ k) nets e"
      "\<forall>n\<in>set nets. cidr v n \<and> maximal_in v s e n"
      by blast
    have "summarize_loop v c e = Inr (net # nets)"
      using ne by (simp add: unfold nets(1))
    moreover have "tiles c (net # nets) e" using nets(3) by (simp add: base blk(4))
    moreover have "\<forall>n\<in>set (net # nets). cidr v n \<and> maximal_in v s e n"
      using nets(4) step(2) maxi by simp
    ultimately show ?thesis by blast
  qed
qed

lemma cidr_addresses_nonempty:
  assumes "cidr v n"
  shows "ip (network_address n) \<in> addresses n" "ip (network_address n) \<le> ip (broadcast_address n)"
proof -
  have pos: "(0::int) < 2 ^ host_bits n" by simp
  show "ip (network_address n) \<le> ip (broadcast_address n)"
    unfolding cidr_block(4) [OF assms] using pos by simp
  then show "ip (network_address n) \<in> addresses n" by (simp add: addresses_def)
qed

lemma tiles_union:
  assumes "tiles a nets b" "\<forall>n\<in>set nets. cidr v n"
  shows "(\<Union>n\<in>set nets. addresses n) = {a .. b} \<and> a \<le> b + 1"
  using assms
proof (induction nets arbitrary: a)
  case Nil
  then show ?case by simp
next
  case (Cons n nets)
  let ?bc = "ip (broadcast_address n)"
  have n: "cidr v n" and base: "ip (network_address n) = a"
    and rest: "tiles (?bc + 1) nets b" "\<forall>m\<in>set nets. cidr v m"
    using Cons.prems by simp_all
  from Cons.IH [OF rest]
  have IH: "(\<Union>m\<in>set nets. addresses m) = {?bc + 1 .. b}" "?bc + 1 \<le> b + 1" by simp_all
  have le: "a \<le> ?bc" using cidr_addresses_nonempty(2) [OF n] by (simp add: base)
  have "addresses n = {a .. ?bc}" by (simp add: addresses_def base)
  moreover have "{a .. ?bc} \<union> {?bc + 1 .. b} = {a .. b}"
    using le IH(2) by auto
  ultimately show ?case using IH le by simp
qed

lemma tiles_later_disjoint:
  assumes "tiles a (n # nets) b" "\<forall>m\<in>set (n # nets). cidr v m" "m \<in> set nets"
  shows "addresses n \<inter> addresses m = {}"
proof -
  let ?bc = "ip (broadcast_address n)"
  have rest: "tiles (?bc + 1) nets b" "\<forall>m\<in>set nets. cidr v m"
    using assms(1,2) by simp_all
  from tiles_union [OF rest] assms(3) have "addresses m \<subseteq> {?bc + 1 .. b}" by blast
  moreover have "addresses n \<subseteq> {.. ?bc}" by (auto simp: addresses_def)
  ultimately show ?thesis by fastforce
qed

lemma tiles_disjoint:
  assumes "tiles a nets b" "\<forall>n\<in>set nets. cidr v n" "i < j" "j < length nets"
  shows "addresses (nets ! i) \<inter> addresses (nets ! j) = {}"
  using assms
proof (induction nets arbitrary: a i j)
  case Nil
  then show ?case by simp
next
  case (Cons n nets)
  from Cons.prems(3) obtain j' where j: "j = Suc j'" by (cases j) simp_all
  with Cons.prems(4) have j': "j' < length nets" by simp
  show ?case
  proof (cases i)
    case 0
    have "nets ! j' \<in> set nets" using j' by simp
    from tiles_later_disjoint [OF Cons.prems(1,2) this] show ?thesis by (simp add: 0 j)
  next
    case (Suc i')
    have rest: "tiles (ip (broadcast_address n) + 1) nets b" "\<forall>m\<in>set nets. cidr v m"
      using Cons.prems(1,2) by simp_all
    have "i' < j'" using Cons.prems(3) by (simp add: Suc j)
    from Cons.IH [OF rest this j'] show ?thesis by (simp add: Suc j)
  qed
qed

lemma tiles_distinct:
  assumes "tiles a nets b" "\<forall>n\<in>set nets. cidr v n"
  shows "distinct nets"
  using assms
proof (induction nets arbitrary: a)
  case Nil
  then show ?case by simp
next
  case (Cons n nets)
  have rest: "tiles (ip (broadcast_address n) + 1) nets b" "\<forall>m\<in>set nets. cidr v m"
    using Cons.prems by simp_all
  have "n \<notin> set nets"
  proof
    assume "n \<in> set nets"
    from tiles_later_disjoint [OF Cons.prems this] have "addresses n = {}" by simp
    moreover have "cidr v n" using Cons.prems(2) by simp
    ultimately show False using cidr_addresses_nonempty(1) by blast
  qed
  with Cons.IH [OF rest] show ?case by simp
qed

lemma cidr_eq_by_addresses:
  assumes A: "cidr v A" and B: "cidr v B" and eq: "addresses A = addresses B"
  shows "A = B"
proof -
  let ?a = "ip (network_address A)" and ?b = "ip (network_address B)"
  note Ab = cidr_block [OF A] and Bb = cidr_block [OF B]
  have ne: "?a \<le> ip (broadcast_address A)" "?b \<le> ip (broadcast_address B)"
    using cidr_addresses_nonempty(2) A B by blast+
  from eq have iv: "{?a .. ip (broadcast_address A)} = {?b .. ip (broadcast_address B)}"
    by (simp add: addresses_def)
  with ne have ab: "?a = ?b" and bc: "ip (broadcast_address A) = ip (broadcast_address B)"
    by (simp_all add: Icc_eq_Icc)
  from bc have "(2::int) ^ host_bits A = 2 ^ host_bits B"
    by (simp add: Ab(4) Bb(4) ab)
  then have hb: "host_bits A = host_bits B" by simp
  have vA: "version (network_address A) = v" "prefixlen A \<le> max_prefixlen v"
    and vB: "version (network_address B) = v" "prefixlen B \<le> max_prefixlen v"
    using A B by (auto simp: cidr_def valid_network_iff)
  from hb vA vB have p: "prefixlen A = prefixlen B"
    by (simp add: host_bits_def)
  have "network_address A = network_address B"
    using ab vA(1) vB(1) by (intro address.equality) simp_all
  with p show ?thesis by (intro network.equality) simp_all
qed

lemma minimal_cover:
  assumes fin: "finite R"
    and R: "\<forall>B\<in>R. cidr v B \<and> maximal_in v a b B"
    and un: "(\<Union>B\<in>R. addresses B) = {a .. b}"
    and dis: "\<forall>B\<in>R. \<forall>B'\<in>R. B \<noteq> B' \<longrightarrow> addresses B \<inter> addresses B' = {}"
    and C: "exact_cover v C a b"
  shows "card R \<le> card C \<and> (card C = card R \<longrightarrow> C = R)"
proof -
  have Cf: "finite C" and Cc: "\<And>D. D \<in> C \<Longrightarrow> cidr v D"
    and Cu: "(\<Union>D\<in>C. addresses D) = {a .. b}"
    using C by (simp_all add: exact_cover_def)
  have Csub: "addresses D \<subseteq> {a .. b}" if "D \<in> C" for D
    using that Cu by blast
  have Rsub: "addresses B \<subseteq> {a .. b}" if "B \<in> R" for B
    using that un by blast
  have inside: "addresses D \<subseteq> addresses B"
    if "D \<in> C" "B \<in> R" "x \<in> addresses D" "x \<in> addresses B" for D B x
  proof -
    have "addresses D \<inter> addresses B \<noteq> {}" using that(3,4) by blast
    moreover have "maximal_in v a b B" using R that(2) by blast
    ultimately show ?thesis
      using Cc [OF that(1)] Csub [OF that(1)] unfolding maximal_in_def by blast
  qed
  have same: "B = B'" if "B \<in> R" "B' \<in> R" "x \<in> addresses B" "x \<in> addresses B'" for B B' x
    using dis that by blast
  have ex: "\<exists>D. D \<in> C \<and> addresses D \<subseteq> addresses B" if B: "B \<in> R" for B
  proof -
    have "cidr v B" using R B by blast
    then have x: "ip (network_address B) \<in> addresses B" by (rule cidr_addresses_nonempty(1))
    with Rsub [OF B] have "ip (network_address B) \<in> (\<Union>D\<in>C. addresses D)"
      unfolding Cu by blast
    then obtain D where D: "D \<in> C" "ip (network_address B) \<in> addresses D" by blast
    from inside [OF D(1) B D(2) x] D(1) show ?thesis by blast
  qed
  define g where "g B = (SOME D. D \<in> C \<and> addresses D \<subseteq> addresses B)" for B
  have g: "g B \<in> C" "addresses (g B) \<subseteq> addresses B" if "B \<in> R" for B
    using someI_ex [OF ex [OF that]] by (simp_all add: g_def)
  have inj: "inj_on g R"
  proof (rule inj_onI)
    fix B B'
    assume B: "B \<in> R" "B' \<in> R" and eq: "g B = g B'"
    have "cidr v (g B)" using g(1) [OF B(1)] by (rule Cc)
    then have x: "ip (network_address (g B)) \<in> addresses (g B)"
      by (rule cidr_addresses_nonempty(1))
    with g(2) [OF B(1)] have "ip (network_address (g B)) \<in> addresses B" by blast
    moreover from x g(2) [OF B(2)] have "ip (network_address (g B)) \<in> addresses B'"
      by (auto simp: eq)
    ultimately show "B = B'" by (rule same [OF B])
  qed
  have img: "g ` R \<subseteq> C" using g(1) by blast
  have "card R = card (g ` R)" using inj by (simp add: card_image)
  also have "\<dots> \<le> card C" using Cf img by (rule card_mono)
  finally have le: "card R \<le> card C" .
  have "C = R" if eq: "card C = card R"
  proof -
    have "card (g ` R) = card C" using inj eq by (simp add: card_image)
    with Cf img have all: "g ` R = C" by (rule card_subset_eq)
    have gid: "g B = B" if B: "B \<in> R" for B
    proof -
      have "addresses B \<subseteq> addresses (g B)"
      proof
        fix x
        assume x: "x \<in> addresses B"
        with Rsub [OF B] have "x \<in> (\<Union>D\<in>C. addresses D)" unfolding Cu by blast
        then obtain D where D: "D \<in> C" "x \<in> addresses D" by blast
        from D(1) all obtain B' where B': "B' \<in> R" "D = g B'" by blast
        from g(2) [OF B'(1)] D(2) have "x \<in> addresses B'" by (auto simp: B'(2))
        from same [OF B B'(1) x this] D(2) show "x \<in> addresses (g B)"
          by (simp add: B'(2))
      qed
      with g(2) [OF B] have "addresses (g B) = addresses B" by blast
      moreover have "cidr v (g B)" using g(1) [OF B] by (rule Cc)
      moreover have "cidr v B" using R B by blast
      ultimately show ?thesis by (rule cidr_eq_by_addresses [rotated 2])
    qed
    then have "g ` R = R" by force
    with all show ?thesis by simp
  qed
  with le show ?thesis by blast
qed

text \<open>
  Claim C5. For two addresses of one version with \<open>first \<le> last\<close>,
  \<open>summarize_address_range\<close> returns networks that tile the range in ascending order:
  their union is exactly the inclusive range, without gaps, and they are pairwise
  disjoint. Every exact cover of the range by networks of that version has at least as
  many members, and one with as many members is this one.
\<close>

theorem summarize_exact_minimal:
  assumes "valid_address first_ip" "valid_address last_ip"
    and "version first_ip = version last_ip" "ip first_ip \<le> ip last_ip"
  shows "\<exists>nets. summarize_address_range first_ip last_ip = Inr nets \<and>
      tiles (ip first_ip) nets (ip last_ip) \<and>
      (\<forall>n\<in>set nets. cidr (version first_ip) n) \<and>
      (\<Union>n\<in>set nets. addresses n) = {ip first_ip .. ip last_ip} \<and>
      (\<forall>i j. i < j \<longrightarrow> j < length nets \<longrightarrow>
         addresses (nets ! i) \<inter> addresses (nets ! j) = {}) \<and>
      (\<forall>C. exact_cover (version first_ip) C (ip first_ip) (ip last_ip) \<longrightarrow>
         length nets \<le> card C \<and> (card C = length nets \<longrightarrow> C = set nets))"
proof -
  let ?v = "version first_ip" and ?s = "ip first_ip" and ?e = "ip last_ip"
  have s0: "0 \<le> ?s" using assms(1) by (simp add: valid_address_def)
  have eM: "?e \<le> ALL_ONES ?v" using assms(2,3) by (simp add: valid_address_def)
  have inv: "ip (broadcast_address D) < ?s"
    if "cidr ?v D" "addresses D \<subseteq> {?s .. ?e}" "ip (network_address D) < ?s" for D
  proof -
    have "ip (network_address D) \<in> addresses D"
      using that(1) by (rule cidr_addresses_nonempty(1))
    with that(2) have "?s \<le> ip (network_address D)" by auto
    with that(3) show ?thesis by simp
  qed
  from summarize_loop_correct [OF s0 order_refl assms(4) eM inv]
  obtain nets where nets: "summarize_loop ?v ?s ?e = Inr nets" "tiles ?s nets ?e"
    "\<forall>n\<in>set nets. cidr ?v n \<and> maximal_in ?v ?s ?e n"
    by blast
  have cid: "\<forall>n\<in>set nets. cidr ?v n" using nets(3) by blast
  have run: "summarize_address_range first_ip last_ip = Inr nets"
    unfolding summarize_address_range_def nets(1) using assms(3,4) by simp
  have un: "(\<Union>n\<in>set nets. addresses n) = {?s .. ?e}"
    using tiles_union [OF nets(2) cid] by simp
  have dj: "addresses (nets ! i) \<inter> addresses (nets ! j) = {}"
    if "i < j" "j < length nets" for i j
    using nets(2) cid that by (rule tiles_disjoint)
  have dn: "distinct nets" using nets(2) cid by (rule tiles_distinct)
  have dis: "\<forall>B\<in>set nets. \<forall>B'\<in>set nets. B \<noteq> B' \<longrightarrow> addresses B \<inter> addresses B' = {}"
  proof (intro ballI impI)
    fix B B'
    assume "B \<in> set nets" "B' \<in> set nets" "B \<noteq> B'"
    then obtain i j where ij: "i < length nets" "nets ! i = B" "j < length nets" "nets ! j = B'"
      "i \<noteq> j"
      by (metis in_set_conv_nth)
    show "addresses B \<inter> addresses B' = {}"
    proof (cases "i < j")
      case True
      from dj [OF True ij(3)] show ?thesis by (simp add: ij)
    next
      case False
      with ij(5) have "j < i" by simp
      from dj [OF this ij(1)] show ?thesis by (simp add: ij Int_commute)
    qed
  qed
  have mn: "length nets \<le> card C \<and> (card C = length nets \<longrightarrow> C = set nets)"
    if "exact_cover ?v C ?s ?e" for C
    using minimal_cover [OF finite_set nets(3) un dis that] distinct_card [OF dn]
    by simp
  from run nets(2) cid un dj mn show ?thesis by blast
qed

theorem summarize_exact_minimal_witness:
  "summarize_address_range \<lparr>version = IPv4, ip = 167772165\<rparr> \<lparr>version = IPv4, ip = 167772178\<rparr>
     = Inr [\<lparr>network_address = \<lparr>version = IPv4, ip = 167772165\<rparr>, prefixlen = 32\<rparr>,
            \<lparr>network_address = \<lparr>version = IPv4, ip = 167772166\<rparr>, prefixlen = 31\<rparr>,
            \<lparr>network_address = \<lparr>version = IPv4, ip = 167772168\<rparr>, prefixlen = 29\<rparr>,
            \<lparr>network_address = \<lparr>version = IPv4, ip = 167772176\<rparr>, prefixlen = 31\<rparr>,
            \<lparr>network_address = \<lparr>version = IPv4, ip = 167772178\<rparr>, prefixlen = 32\<rparr>] \<and>
   addresses \<lparr>network_address = \<lparr>version = IPv4, ip = 167772165\<rparr>, prefixlen = 32\<rparr> \<union>
   (addresses \<lparr>network_address = \<lparr>version = IPv4, ip = 167772166\<rparr>, prefixlen = 31\<rparr> \<union>
   (addresses \<lparr>network_address = \<lparr>version = IPv4, ip = 167772168\<rparr>, prefixlen = 29\<rparr> \<union>
   (addresses \<lparr>network_address = \<lparr>version = IPv4, ip = 167772176\<rparr>, prefixlen = 31\<rparr> \<union>
    addresses \<lparr>network_address = \<lparr>version = IPv4, ip = 167772178\<rparr>, prefixlen = 32\<rparr>)))
     = {167772165 .. 167772178} \<and>
   card {167772165 .. 167772178 :: int} = 14"
proof -
  let ?a = "\<lparr>version = IPv4, ip = 167772165\<rparr>" and ?b = "\<lparr>version = IPv4, ip = 167772178\<rparr>"
  let ?n0 = "\<lparr>network_address = \<lparr>version = IPv4, ip = 167772165\<rparr>, prefixlen = 32\<rparr>"
  let ?n1 = "\<lparr>network_address = \<lparr>version = IPv4, ip = 167772166\<rparr>, prefixlen = 31\<rparr>"
  let ?n2 = "\<lparr>network_address = \<lparr>version = IPv4, ip = 167772168\<rparr>, prefixlen = 29\<rparr>"
  let ?n3 = "\<lparr>network_address = \<lparr>version = IPv4, ip = 167772176\<rparr>, prefixlen = 31\<rparr>"
  let ?n4 = "\<lparr>network_address = \<lparr>version = IPv4, ip = 167772178\<rparr>, prefixlen = 32\<rparr>"
  have h: "valid_address ?a" "valid_address ?b" "version ?a = version ?b" "ip ?a \<le> ip ?b"
    by (simp_all add: valid_address_def ALL_ONES_def)
  have ev: "summarize_address_range ?a ?b = Inr [?n0, ?n1, ?n2, ?n3, ?n4]"
    by code_simp
  from summarize_exact_minimal [OF h] obtain nets where
    all: "summarize_address_range ?a ?b = Inr nets \<and>
      tiles (ip ?a) nets (ip ?b) \<and>
      (\<forall>n\<in>set nets. cidr (version ?a) n) \<and>
      (\<Union>n\<in>set nets. addresses n) = {ip ?a .. ip ?b} \<and>
      (\<forall>i j. i < j \<longrightarrow> j < length nets \<longrightarrow>
         addresses (nets ! i) \<inter> addresses (nets ! j) = {}) \<and>
      (\<forall>C. exact_cover (version ?a) C (ip ?a) (ip ?b) \<longrightarrow>
         length nets \<le> card C \<and> (card C = length nets \<longrightarrow> C = set nets))" ..
  note n = all [THEN conjunct1]
  note u = all [THEN conjunct2, THEN conjunct2, THEN conjunct2, THEN conjunct1]
  from n ev have eq: "nets = [?n0, ?n1, ?n2, ?n3, ?n4]" by (simp only: sum.inject)
  have "(\<Union>n\<in>set [?n0, ?n1, ?n2, ?n3, ?n4]. addresses n) = {ip ?a .. ip ?b}"
    using u unfolding eq .
  then have un: "addresses ?n0 \<union> (addresses ?n1 \<union> (addresses ?n2 \<union>
      (addresses ?n3 \<union> addresses ?n4))) = {167772165 .. 167772178}"
    by (simp only: list.set UN_insert UN_empty Un_empty_right address.simps)
  have c: "card {167772165 .. 167772178 :: int} = 14" by simp
  from ev un c show ?thesis by (intro conjI)
qed

section \<open>VLSM allocation of host counts from \<open>-1\<close> up\<close>

lemma int_log2_power: "int_log2 (2 ^ k) = Inr (int k)"
  using bitlen_twopow_add_eq [of 0 k] by (simp add: int_log2_def)

lemma power2_le_dvd:
  fixes j k :: nat
  assumes "(2::int) ^ j \<le> 2 ^ k"
  shows "(2::int) ^ j dvd 2 ^ k"
proof -
  from assms have "j \<le> k" by simp
  then show ?thesis by (rule le_imp_power_dvd)
qed

lemma place_blocks_ok:
  assumes "version a = IPv4" "0 \<le> ip a"
    and "\<forall>b\<in>set bs. \<exists>k\<le>32. block_size b = 2 ^ k"
    and "sorted (map (\<lambda>b. - block_size b) bs)"
    and "\<forall>b\<in>set bs. block_size b dvd ip a"
    and "ip a + sum_list (map block_size bs) \<le> ALL_ONES IPv4"
    and "distinct (map original_index bs)"
    and "\<forall>b\<in>set bs. original_index b < length alloc"
  shows "\<exists>alloc'. place_blocks bs a alloc = Inr alloc' \<and> length alloc' = length alloc \<and>
     (\<forall>i. i \<notin> original_index ` set bs \<longrightarrow> alloc' ! i = alloc ! i) \<and>
     (\<forall>b\<in>set bs. \<exists>sub. alloc' ! original_index b = Some sub \<and> cidr IPv4 sub \<and>
         num_addresses sub = block_size b \<and> ip a \<le> ip (network_address sub) \<and>
         ip (broadcast_address sub) < ip a + sum_list (map block_size bs))"
  using assms
proof (induction bs arbitrary: a alloc)
  case Nil
  then show ?case by simp
next
  case (Cons b bs)
  from Cons.prems(3) obtain k where k: "k \<le> 32" "block_size b = 2 ^ k" by auto
  have pos: "0 \<le> sum_list (map block_size bs)"
  proof (rule sum_list_nonneg)
    fix x assume "x \<in> set (map block_size bs)"
    then obtain b' where "b' \<in> set bs" "x = block_size b'" by auto
    with Cons.prems(3) obtain j where "x = 2 ^ j" by auto
    then show "0 \<le> x" by simp
  qed
  have kpos: "(0::int) < 2 ^ k" by simp
  have top: "ip a + 2 ^ k + sum_list (map block_size bs) \<le> ALL_ONES IPv4"
    using Cons.prems(6) by (simp add: k(2) add.assoc)
  have lim: "ip a + 2 ^ k \<le> ALL_ONES (version a)"
    using top pos Cons.prems(1) by simp
  have lim0: "ip a \<le> ALL_ONES (version a)" using lim kpos by linarith
  have lo: "0 \<le> ip a + 2 ^ k" using Cons.prems(2) kpos by linarith
  have va: "valid_address a"
    using Cons.prems(2) lim0 by (simp add: valid_address_def)
  have al: "ip a mod 2 ^ k = 0" using Cons.prems(5) by (simp add: k(2) mod_eq_0_iff_dvd)
  define sub where "sub = \<lparr>network_address = a, prefixlen = 32 - int k\<rparr>"
  have nn: "new_network True a (32 - int k) = Inr sub"
    unfolding sub_def using va k(1) al Cons.prems(1)
    by (intro new_network_strict) simp_all
  then have net: "ip_network a (32 - int k) = Inr sub" by (simp add: ip_network_def)
  from new_network_valid [OF nn va] Cons.prems(1) have cs: "cidr IPv4 sub"
    by (simp add: cidr_def)
  have hb: "host_bits sub = k" using Cons.prems(1) k(1) by (simp add: host_bits_def sub_def)
  note sb = cidr_block [OF cs, unfolded hb]
  have base: "ip (network_address sub) = ip a" by (simp add: sub_def)
  have num: "num_addresses sub = 2 ^ k"
    using num_addresses_eq [of sub] cs by (simp add: cidr_def hb)
  define a' where "a' = \<lparr>version = version a, ip = ip a + 2 ^ k\<rparr>"
  have add: "address_add a (block_size b) = Inr a'"
    unfolding a'_def k(2) using lo lim by (rule address_add_valid)
  let ?alloc = "alloc[original_index b := Some sub]"
  have step: "place_blocks (b # bs) a alloc = place_blocks bs a' ?alloc"
    by (simp add: k(2) int_log2_power net add [unfolded k(2)])
  have p1: "version a' = IPv4" "0 \<le> ip a'" using Cons.prems(1,2) by (simp_all add: a'_def)
  have p3: "\<forall>b\<in>set bs. \<exists>k\<le>32. block_size b = 2 ^ k" using Cons.prems(3) by simp
  have p4: "sorted (map (\<lambda>b. - block_size b) bs)" using Cons.prems(4) by simp
  have p5: "\<forall>b'\<in>set bs. block_size b' dvd ip a'"
  proof
    fix b' assume b': "b' \<in> set bs"
    with Cons.prems(3) obtain j where j: "block_size b' = 2 ^ j" by auto
    from Cons.prems(4) b' have "block_size b' \<le> block_size b" by auto
    then have "(2::int) ^ j dvd 2 ^ k" unfolding j k(2) by (rule power2_le_dvd)
    moreover have "2 ^ j dvd ip a" using Cons.prems(5) b' by (simp add: j [symmetric])
    ultimately show "block_size b' dvd ip a'" by (simp add: j a'_def)
  qed
  have p6: "ip a' + sum_list (map block_size bs) \<le> ALL_ONES IPv4" using top by (simp add: a'_def)
  have p7: "distinct (map original_index bs)" using Cons.prems(7) by simp
  have p8: "\<forall>b\<in>set bs. original_index b < length ?alloc" using Cons.prems(8) by simp
  from Cons.IH [OF p1 p3 p4 p5 p6 p7 p8] obtain alloc' where
    r: "place_blocks bs a' ?alloc = Inr alloc'" "length alloc' = length ?alloc"
      "\<And>i. i \<notin> original_index ` set bs \<Longrightarrow> alloc' ! i = ?alloc ! i"
      "\<And>b'. b' \<in> set bs \<Longrightarrow> \<exists>s. alloc' ! original_index b' = Some s \<and> cidr IPv4 s \<and>
         num_addresses s = block_size b' \<and> ip a' \<le> ip (network_address s) \<and>
         ip (broadcast_address s) < ip a' + sum_list (map block_size bs)"
    by blast
  have c1: "place_blocks (b # bs) a alloc = Inr alloc'" by (simp only: step r(1))
  have c2: "length alloc' = length alloc" by (simp add: r(2))
  have c3: "alloc' ! i = alloc ! i" if "i \<notin> original_index ` set (b # bs)" for i
    using r(3) [of i] that by simp
  have nb: "original_index b \<notin> original_index ` set bs" using Cons.prems(7) by simp
  have c4: "\<exists>s. alloc' ! original_index b' = Some s \<and> cidr IPv4 s \<and>
         num_addresses s = block_size b' \<and> ip a \<le> ip (network_address s) \<and>
         ip (broadcast_address s) < ip a + sum_list (map block_size (b # bs))"
    if b': "b' \<in> set (b # bs)" for b'
  proof (cases "b' = b")
    case True
    have "alloc' ! original_index b = Some sub"
      using r(3) [OF nb] Cons.prems(8) by simp
    moreover have "ip (broadcast_address sub) < ip a + sum_list (map block_size (b # bs))"
      using pos kpos by (simp add: sb(4) base k(2))
    ultimately show ?thesis using cs num by (simp add: True k(2) base)
  next
    case False
    with b' have "b' \<in> set bs" by simp
    from r(4) [OF this] obtain s where s: "alloc' ! original_index b' = Some s" "cidr IPv4 s"
      "num_addresses s = block_size b'" "ip a' \<le> ip (network_address s)"
      "ip (broadcast_address s) < ip a' + sum_list (map block_size bs)" by blast
    have "ip a + 2 ^ k \<le> ip (network_address s)" using s(4) by (simp add: a'_def)
    then have "ip a \<le> ip (network_address s)" using kpos by linarith
    moreover have "ip (broadcast_address s) < ip a + sum_list (map block_size (b # bs))"
      using s(5) by (simp add: a'_def k(2))
    ultimately show ?thesis using s(1,2,3) by blast
  qed
  from c1 c2 c3 c4 show ?case by blast
qed

lemma needed_blocks_exact:
  assumes "\<forall>h\<in>set sizes. - 1 \<le> h \<and> h + 2 \<le> 2 ^ 32"
  shows "needed_blocks dbl i sizes =
     Inr (map (\<lambda>(k, h). \<lparr>original_size = h, block_size = 2 ^ ceillog2 (nat (h + 2)),
                          original_index = k\<rparr>) (zip [i ..< i + length sizes] sizes))"
  using assms
proof (induction sizes arbitrary: i)
  case Nil
  then show ?case by simp
next
  case (Cons s sizes)
  then have IH: "needed_blocks dbl (Suc i) sizes =
     Inr (map (\<lambda>(k, h). \<lparr>original_size = h, block_size = 2 ^ ceillog2 (nat (h + 2)),
                          original_index = k\<rparr>) (zip [Suc i ..< Suc i + length sizes] sizes))"
    by simp
  have s: "- 1 \<le> s" "s + 2 \<le> 2 ^ 32" using Cons.prems by simp_all
  have "[i ..< i + length (s # sizes)] = i # [Suc i ..< Suc i + length sizes]"
    by (simp add: upt_rec)
  with s IH show ?case by (simp add: ceil_log2_def)
qed

lemma member_le_sum_list_int:
  fixes xs :: "int list"
  assumes "\<forall>x\<in>set xs. 0 \<le> x" "y \<in> set xs"
  shows "y \<le> sum_list xs"
  using assms
proof (induction xs)
  case Nil
  then show ?case by simp
next
  case (Cons x xs)
  have "0 \<le> sum_list xs" using Cons.prems(1) by (intro sum_list_nonneg) simp
  with Cons show ?case by auto
qed

text \<open>
  Claim C4, as amended. \<open>handle_split_network\<close> has no check of the host counts, and
  a host count of 0 or \<open>-1\<close> is allocated like any other. For every requirement list
  whose host counts lie between \<open>-1\<close> and \<open>2 ^ 32 - 2\<close>, whose blocks fit the IPv4
  parent and end below 255.255.255.255, the allocation succeeds and gives every
  requirement a block inside the parent with \<open>2 ^ \<lceil>log 2 (h + 2)\<rceil>\<close> addresses: 2
  addresses for a host count of 0, and 1 address for \<open>-1\<close>.
\<close>

theorem counts_from_minus_one_allocated:
  assumes net: "cidr IPv4 net"
    and hs: "\<forall>h\<in>set sizes. - 1 \<le> h \<and> h + 2 \<le> 2 ^ 32"
    and fit: "sum_list (map (\<lambda>h. 2 ^ ceillog2 (nat (h + 2))) sizes) \<le> num_addresses net"
    and top: "ip (network_address net) + sum_list (map (\<lambda>h. 2 ^ ceillog2 (nat (h + 2))) sizes)
                \<le> ALL_ONES IPv4"
  shows "\<exists>subs. handle_split_network dbl net sizes = Inr (Allocated subs) \<and>
     length subs = length sizes \<and>
     (\<forall>i<length sizes. \<exists>sub. subs ! i = Some sub \<and> cidr IPv4 sub \<and>
         addresses sub \<subseteq> addresses net \<and>
         num_addresses sub = 2 ^ ceillog2 (nat (sizes ! i + 2)) \<and>
         (sizes ! i = 0 \<longrightarrow> num_addresses sub = 2) \<and>
         (sizes ! i = - 1 \<longrightarrow> num_addresses sub = 1))"
proof -
  let ?rs = "\<lambda>h. (2::int) ^ ceillog2 (nat (h + 2))"
  let ?mk = "\<lambda>(k, h). \<lparr>original_size = h, block_size = ?rs h, original_index = k\<rparr>"
  let ?n = "length sizes"
  define bs where "bs = map ?mk (zip [0 ..< ?n] sizes)"
  define srt where "srt = sort_blocks bs"
  let ?T = "sum_list (map ?rs sizes)"
  let ?base = "ip (network_address net)"
  have nb: "needed_blocks dbl 0 sizes = Inr bs"
    using needed_blocks_exact [OF hs, of dbl 0] by (simp add: bs_def)
  have len: "length bs = ?n" by (simp add: bs_def)
  have nth: "bs ! i = \<lparr>original_size = sizes ! i, block_size = ?rs (sizes ! i), original_index = i\<rparr>"
    if "i < ?n" for i using that by (simp add: bs_def)
  have idx: "map original_index bs = [0 ..< ?n]"
    by (rule nth_equalityI) (simp_all add: len nth)
  have szs: "map block_size bs = map ?rs sizes"
    by (rule nth_equalityI) (simp_all add: len nth)
  have set_srt: "set srt = set bs" by (simp add: srt_def sort_blocks_def)
  have sum_srt: "sum_list (map block_size srt) = ?T"
    by (simp add: srt_def sort_blocks_def sum_list_sort_key szs)
  have elem: "\<exists>i<?n. b = \<lparr>original_size = sizes ! i, block_size = ?rs (sizes ! i),
                             original_index = i\<rparr>" if "b \<in> set srt" for b
  proof -
    from that have "b \<in> set bs" by (simp add: set_srt)
    then obtain i where "i < length bs" "bs ! i = b" by (auto simp: in_set_conv_nth)
    then show ?thesis using nth [of i] by (auto simp: len)
  qed
  have vn: "valid_network net" "version (network_address net) = IPv4"
    using net by (simp_all add: cidr_def)
  have b0: "0 \<le> ?base" using vn(1) by (simp add: valid_network_iff)
  have q3: "\<forall>b\<in>set srt. \<exists>k\<le>32. block_size b = 2 ^ k"
  proof
    fix b assume "b \<in> set srt"
    from elem [OF this] obtain i where i: "i < ?n" "block_size b = ?rs (sizes ! i)" by auto
    then have "sizes ! i \<in> set sizes" by simp
    with hs have h: "- 1 \<le> sizes ! i" "sizes ! i + 2 \<le> 2 ^ 32" by blast+
    have "nat (sizes ! i + 2) \<le> 2 ^ 32" using h by (simp add: nat_le_iff)
    moreover have "0 < nat (sizes ! i + 2)" using h(1) by simp
    ultimately have "ceillog2 (nat (sizes ! i + 2)) \<le> 32" by (simp add: ceillog2_le_iff)
    then show "\<exists>k\<le>32. block_size b = 2 ^ k" using i(2) by blast
  qed
  have q4: "sorted (map (\<lambda>b. - block_size b) srt)"
    by (simp add: srt_def sort_blocks_def)
  have nonneg: "\<forall>x\<in>set (map block_size srt). 0 \<le> x"
  proof
    fix x assume "x \<in> set (map block_size srt)"
    then obtain b where "b \<in> set srt" "x = block_size b" by auto
    with q3 obtain k where "x = 2 ^ k" by auto
    then show "0 \<le> x" by simp
  qed
  note nblk = cidr_block [OF net]
  have num: "num_addresses net = 2 ^ host_bits net" by (rule num_addresses_eq [OF vn(1)])
  have q5: "\<forall>b\<in>set srt. block_size b dvd ?base"
  proof
    fix b assume b: "b \<in> set srt"
    with q3 obtain k where k: "block_size b = 2 ^ k" by auto
    have "block_size b \<in> set (map block_size srt)" using b by simp
    from member_le_sum_list_int [OF nonneg this] have "block_size b \<le> ?T" by (simp only: sum_srt)
    also have "\<dots> \<le> 2 ^ host_bits net" using fit by (simp only: num)
    finally have "(2::int) ^ k \<le> 2 ^ host_bits net" by (simp only: k)
    then have "(2::int) ^ k dvd 2 ^ host_bits net" by (rule power2_le_dvd)
    then show "block_size b dvd ?base" unfolding k using nblk(2) by (rule dvd_trans)
  qed
  have q6: "?base + sum_list (map block_size srt) \<le> ALL_ONES IPv4"
    using top by (simp only: sum_srt)
  have q7: "distinct (map original_index srt)"
  proof -
    have "distinct (map original_index bs)" by (simp add: idx)
    then have "distinct bs" "inj_on original_index (set bs)" by (simp_all add: distinct_map)
    then show ?thesis by (simp add: distinct_map srt_def sort_blocks_def)
  qed
  have q8: "\<forall>b\<in>set srt. original_index b < length (replicate ?n (None :: network option))"
  proof
    fix b assume "b \<in> set srt"
    from elem [OF this] show "original_index b < length (replicate ?n (None :: network option))"
      by auto
  qed
  from place_blocks_ok [OF vn(2) b0 q3 q4 q5 q6 q7 q8] obtain subs where
    r: "place_blocks srt (network_address net) (replicate ?n None) = Inr subs"
      "length subs = ?n"
      "\<And>b. b \<in> set srt \<Longrightarrow> \<exists>sub. subs ! original_index b = Some sub \<and> cidr IPv4 sub \<and>
         num_addresses sub = block_size b \<and> ?base \<le> ip (network_address sub) \<and>
         ip (broadcast_address sub) < ?base + sum_list (map block_size srt)"
    by auto
  have run: "handle_split_network dbl net sizes = Inr (Allocated subs)"
    using fit by (simp add: handle_split_network_def nb Let_def sum_srt r(1) flip: srt_def)
  have each: "\<exists>sub. subs ! i = Some sub \<and> cidr IPv4 sub \<and> addresses sub \<subseteq> addresses net \<and>
         num_addresses sub = ?rs (sizes ! i) \<and>
         (sizes ! i = 0 \<longrightarrow> num_addresses sub = 2) \<and>
         (sizes ! i = - 1 \<longrightarrow> num_addresses sub = 1)" if i: "i < ?n" for i
  proof -
    have "bs ! i \<in> set srt" using i by (simp add: set_srt len)
    from r(3) [OF this] obtain sub where sub: "subs ! i = Some sub" "cidr IPv4 sub"
      "num_addresses sub = ?rs (sizes ! i)" "?base \<le> ip (network_address sub)"
      "ip (broadcast_address sub) < ?base + ?T"
      by (auto simp: nth [OF i] sum_srt)
    have "ip (broadcast_address sub) \<le> ip (broadcast_address net)"
      using sub(5) fit by (simp add: nblk(4) num)
    with sub(4) have "addresses sub \<subseteq> addresses net" by (simp add: addresses_def)
    moreover have "sizes ! i = 0 \<longrightarrow> num_addresses sub = 2" by (simp add: sub(3))
    moreover have "sizes ! i = - 1 \<longrightarrow> num_addresses sub = 1" by (simp add: sub(3))
    ultimately show ?thesis using sub(1,2,3) by blast
  qed
  from run r(2) each show ?thesis by blast
qed

theorem counts_from_minus_one_allocated_witness:
  "cidr IPv4 \<lparr>network_address = \<lparr>version = IPv4, ip = 3221225984\<rparr>, prefixlen = 24\<rparr> \<and>
   (\<exists>subs s0 s1.
      handle_split_network real_ceil_log2
        \<lparr>network_address = \<lparr>version = IPv4, ip = 3221225984\<rparr>, prefixlen = 24\<rparr> [0, - 1]
        = Inr (Allocated subs) \<and>
      subs ! 0 = Some s0 \<and> num_addresses s0 = 2 \<and>
      subs ! 1 = Some s1 \<and> num_addresses s1 = 1)"
proof -
  let ?n = "\<lparr>network_address = \<lparr>version = IPv4, ip = 3221225984\<rparr>, prefixlen = 24\<rparr>"
  have v: "valid_network ?n" by code_simp
  then have c: "cidr IPv4 ?n" by (simp add: cidr_def)
  have n: "num_addresses ?n = 256" by code_simp
  have hs: "\<forall>h\<in>set [0, - 1 :: int]. - 1 \<le> h \<and> h + 2 \<le> 2 ^ 32" by simp
  have fit: "sum_list (map (\<lambda>h. 2 ^ ceillog2 (nat (h + 2))) [0, - 1 :: int]) \<le> num_addresses ?n"
    by (simp add: n)
  have top: "ip (network_address ?n) + sum_list (map (\<lambda>h. 2 ^ ceillog2 (nat (h + 2))) [0, - 1 :: int])
      \<le> ALL_ONES IPv4"
    by (simp add: ALL_ONES_def)
  from counts_from_minus_one_allocated [OF c hs fit top, of real_ceil_log2]
  obtain subs where r: "handle_split_network real_ceil_log2 ?n [0, - 1] = Inr (Allocated subs)"
    and e: "\<forall>i<length [0, - 1 :: int]. \<exists>sub. subs ! i = Some sub \<and> cidr IPv4 sub \<and>
         addresses sub \<subseteq> addresses ?n \<and>
         num_addresses sub = 2 ^ ceillog2 (nat ([0, - 1] ! i + 2)) \<and>
         ([0, - 1 :: int] ! i = 0 \<longrightarrow> num_addresses sub = 2) \<and>
         ([0, - 1 :: int] ! i = - 1 \<longrightarrow> num_addresses sub = 1)"
    by (elim exE conjE)
  from e [rule_format, of 0] obtain s0 where s0: "subs ! 0 = Some s0" "num_addresses s0 = 2"
    by auto
  from e [rule_format, of 1] obtain s1 where s1: "subs ! 1 = Some s1" "num_addresses s1 = 1"
    by auto
  from c r s0 s1 show ?thesis by blast
qed

text \<open>
  Claim C4 as stated fails: a host count of 0 inside 192.0.2.0/24 is allocated the
  block 192.0.2.0/31.
\<close>

theorem requirement_zero_counterexample:
  "handle_split_network real_ceil_log2
     \<lparr>network_address = \<lparr>version = IPv4, ip = 3221225984\<rparr>, prefixlen = 24\<rparr> [0] =
   Inr (Allocated
     [Some \<lparr>network_address = \<lparr>version = IPv4, ip = 3221225984\<rparr>, prefixlen = 31\<rparr>])"
  by code_simp

end
